theory Spec2Isabelle
  imports Main "HOL-Library.Word" "HOL-Library.Signed_Division"
begin

section \<open>The allocator of mm.c as state-passing functions\<close>

text \<open>
  The allocator keeps all of its data in one growable region of memory and in a few
  globals. The model threads them through every function as a record:
  \<^item> \<open>mem\<close> is the store, a map from byte addresses to the values kept there (the 4-byte
    tag word whose first byte has that address, or one payload byte);
  \<^item> \<open>mem_brk\<close> and \<open>mem_max_addr\<close> are the current end of the region and the limit of
    the backing store;
  \<^item> \<open>heap_blocks\<close> is the global pointer to the prologue header;
  \<^item> \<open>mm_list\<close> is the explicit free list, head first.

  Pointers are integers, \<open>NULL\<close> is 0. Block sizes are C \<open>int\<close>s of 32 bits: every
  sum and difference of sizes that mm.c computes is cut to 32 bits by \<open>to_int32\<close>, and
  so is every conversion from \<open>size_t\<close> (64 bits, a word) to \<open>int\<close>.
\<close>

record heap =
  mem :: "int \<Rightarrow> int"
  mem_brk :: int
  mem_max_addr :: int
  heap_blocks :: int
  mm_list :: "int list"

type_synonym size_t = "64 word"

definition NULL :: int where
  "NULL = 0"

text \<open>
  \<open>to_int32\<close> is the conversion of an integer to the 32-bit \<open>int\<close> of C (two's
  complement, keeping the low 32 bits).
\<close>

definition to_int32 :: "int \<Rightarrow> int" where
  "to_int32 x = (x + 2 ^ 31) mod 2 ^ 32 - 2 ^ 31"

subsection \<open>memlib.h: the backing store\<close>

text \<open>
  Modelled from the spec: \<open>mem_sbrk\<close> of memlib.h, which is not part of the sources. It
  is the primitive \<open>grow(byte_count) -> base_address | failure_sentinel\<close> that extends
  the managed region contiguously from its previous end. It fails, with the sentinel
  \<open>-1\<close> that mm.c tests for, when the count is negative or the region would pass the
  limit of the backing store, and then changes nothing.
\<close>

definition mem_sbrk :: "int \<Rightarrow> heap \<Rightarrow> int \<times> heap" where
  "mem_sbrk incr st =
     (if incr < 0 \<or> mem_brk st + incr > mem_max_addr st then (- 1, st)
      else (mem_brk st, st\<lparr>mem_brk := mem_brk st + incr\<rparr>))"

subsection \<open>mm_block.h: the block codec\<close>

text \<open>
  Modelled from the spec: the functions of mm_block.h, which is not part of the
  sources. A tag is one word holding a size (a multiple of 8) and the allocation bit;
  the header is the first word of a block and the footer its last word; the physical
  successor starts \<open>size\<close> bytes after the header, and the physical predecessor is found
  through the size in the word just before the header.
\<close>

definition pack :: "int \<Rightarrow> bool \<Rightarrow> int" where
  "pack sz alloc = sz + (if alloc then 1 else 0)"

definition mm_block_size :: "heap \<Rightarrow> int \<Rightarrow> int" where
  "mm_block_size st bp = mem st bp - mem st bp mod 8"

definition mm_block_allocated :: "heap \<Rightarrow> int \<Rightarrow> bool" where
  "mm_block_allocated st bp = (mem st bp mod 2 = 1)"

definition mm_block_set_header :: "int \<Rightarrow> int \<Rightarrow> bool \<Rightarrow> heap \<Rightarrow> heap" where
  "mm_block_set_header bp sz alloc st = st\<lparr>mem := (mem st)(bp := pack sz alloc)\<rparr>"

definition mm_block_set_footer :: "int \<Rightarrow> int \<Rightarrow> bool \<Rightarrow> heap \<Rightarrow> heap" where
  "mm_block_set_footer bp sz alloc st =
     st\<lparr>mem := (mem st)(bp + sz - 4 := pack sz alloc)\<rparr>"

definition mm_block_next :: "heap \<Rightarrow> int \<Rightarrow> int" where
  "mm_block_next st bp = bp + mm_block_size st bp"

definition mm_block_prev :: "heap \<Rightarrow> int \<Rightarrow> int" where
  "mm_block_prev st bp = bp - mm_block_size st (bp - 4)"

subsection \<open>mm_list.h: the explicit free list\<close>

text \<open>
  Modelled from the spec: the functions of mm_list.h, which is not part of the
  sources. The free list is the sequence of the addresses of its blocks in traversal
  order; \<open>prepend\<close> inserts at the head and \<open>remove\<close> detaches one block.
\<close>

definition mm_list_init :: "heap \<Rightarrow> heap" where
  "mm_list_init st = st\<lparr>mm_list := []\<rparr>"

definition mm_list_prepend :: "int \<Rightarrow> heap \<Rightarrow> heap" where
  "mm_list_prepend bp st = st\<lparr>mm_list := bp # mm_list st\<rparr>"

definition mm_list_remove :: "int \<Rightarrow> heap \<Rightarrow> heap" where
  "mm_list_remove bp st = st\<lparr>mm_list := remove1 bp (mm_list st)\<rparr>"

subsection \<open>mm.c\<close>

definition free_coalesce :: "int \<Rightarrow> heap \<Rightarrow> int \<times> heap" where
  "free_coalesce bp st0 =
     (let sz = mm_block_size st0 bp;
          st = mm_block_set_footer bp sz False (mm_block_set_header bp sz False st0);
          prev_alloc = mm_block_allocated st (mm_block_prev st bp);
          next_alloc = mm_block_allocated st (mm_block_next st bp)
      in if prev_alloc \<and> next_alloc then (bp, mm_list_prepend bp st)
         else if prev_alloc \<and> \<not> next_alloc then
           (let sz = to_int32 (sz + mm_block_size st (mm_block_next st bp));
                st = mm_list_remove (mm_block_next st bp) st;
                st = mm_list_prepend bp st;
                st = mm_block_set_header bp sz False st;
                st = mm_block_set_footer bp sz False st
            in (bp, st))
         else if \<not> prev_alloc \<and> next_alloc then
           (let sz = to_int32 (sz + mm_block_size st (mm_block_prev st bp));
                st = mm_block_set_header (mm_block_prev st bp) sz False st;
                st = mm_block_set_footer (mm_block_prev st bp) sz False st
            in (mm_block_prev st bp, st))
         else
           (let sz = to_int32 (sz + to_int32 (mm_block_size st (mm_block_next st bp)
                                                + mm_block_size st (mm_block_prev st bp)));
                st = mm_list_remove (mm_block_next st bp) st;
                st = mm_block_set_header (mm_block_prev st bp) sz False st;
                st = mm_block_set_footer (mm_block_prev st bp) sz False st
            in (mm_block_prev st bp, st)))"

definition extend_heap :: "int \<Rightarrow> heap \<Rightarrow> int \<times> heap" where
  "extend_heap sz st0 =
     (case mem_sbrk sz st0 of (bp, st) \<Rightarrow>
        if bp = - 1 then (NULL, st)
        else
          (let old_epilogue = bp - 4;
               st = mm_block_set_header old_epilogue sz False st;
               st = mm_block_set_footer old_epilogue sz False st;
               st = mm_block_set_header (mm_block_next st old_epilogue) 0 True st
           in free_coalesce old_epilogue st))"

definition mm_init :: "heap \<Rightarrow> int \<times> heap" where
  "mm_init st0 =
     (let st = mm_list_init st0 in
      case mem_sbrk 16 st of (new_region, st) \<Rightarrow>
        if new_region = - 1 then (- 1, st)
        else
          (let st = st\<lparr>heap_blocks := new_region\<rparr>;
               st = mm_block_set_header (heap_blocks st) 0 False st;
               st = mm_block_set_header (heap_blocks st + 4) 8 True st;
               st = mm_block_set_footer (heap_blocks st + 4) 8 True st;
               st = mm_block_set_header (heap_blocks st + 12) 0 True st;
               st = st\<lparr>heap_blocks := heap_blocks st + 4\<rparr>;
               st = snd (extend_heap 64 st)
           in (0, st)))"

definition mm_free :: "int \<Rightarrow> heap \<Rightarrow> heap" where
  "mm_free bp st =
     (if bp = NULL then st
      else (let blockHeader = bp - 4 in snd (free_coalesce blockHeader st)))"

text \<open>
  The loop of \<open>find_fit\<close> walks the free list from its head to its end; \<open>find_fit_from\<close>
  is the loop with the part of the list that is still to be visited.
\<close>

fun find_fit_from :: "int \<Rightarrow> heap \<Rightarrow> int list \<Rightarrow> int" where
  "find_fit_from sz st [] = NULL"
| "find_fit_from sz st (bp # rest) =
     (if mm_block_size st bp \<ge> sz then bp else find_fit_from sz st rest)"

definition find_fit :: "int \<Rightarrow> heap \<Rightarrow> int" where
  "find_fit sz st = find_fit_from sz st (mm_list st)"

definition place :: "int \<Rightarrow> int \<Rightarrow> heap \<Rightarrow> int \<times> heap" where
  "place bp sz st0 =
     (let old_size = mm_block_size st0 bp;
          new_size = to_int32 (old_size - sz)
      in if new_size \<ge> 16 then
           (if sz \<ge> 75 then
              (let st = mm_block_set_header bp new_size True st0;
                   st = mm_block_set_footer bp new_size True st;
                   new_bp = mm_block_next st bp;
                   st = mm_block_set_header new_bp sz True st;
                   st = mm_block_set_footer new_bp sz True st;
                   st = mm_block_set_header bp new_size False st;
                   st = mm_block_set_footer bp new_size False st
               in (new_bp, st))
            else
              (let st = mm_block_set_header bp sz True st0;
                   st = mm_block_set_footer bp sz True st;
                   new_bp = mm_block_next st bp;
                   st = mm_list_prepend new_bp st;
                   st = mm_block_set_header new_bp new_size False st;
                   st = mm_block_set_footer new_bp new_size False st
               in (bp, mm_list_remove bp st)))
         else
           (let st = mm_block_set_header bp old_size True st0;
                st = mm_block_set_footer bp old_size True st
            in (bp, mm_list_remove bp st)))"

text \<open>The division of C truncates towards zero: it is \<open>sdiv\<close>.\<close>

definition required_block_size :: "int \<Rightarrow> int" where
  "required_block_size payload_size0 =
     (let payload_size = to_int32 (payload_size0 + 8)
      in to_int32 ((to_int32 (payload_size + 7) sdiv 8) * 8))"

text \<open>
  The \<open>while\<close> loop of \<open>mm_malloc\<close>, which runs as long as no fit is found. It need not
  terminate: \<open>None\<close> is the loop that runs forever.
\<close>

partial_function (option) malloc_loop :: "int \<Rightarrow> int \<Rightarrow> heap \<Rightarrow> (int \<times> heap) option" where
  "malloc_loop required_size temp st =
     (if temp = NULL then
        (let tempp = (if required_size > 512 then required_size else 512);
             st = snd (extend_heap tempp st)
         in malloc_loop required_size (find_fit required_size st) st)
      else Some (temp, st))"

definition mm_malloc :: "size_t \<Rightarrow> heap \<Rightarrow> (int \<times> heap) option" where
  "mm_malloc sz st0 =
     (if sz = 0 then Some (NULL, st0)
      else
        (let required_size = required_block_size (to_int32 (uint sz)) in
         case malloc_loop required_size (find_fit required_size st0) st0 of
           None \<Rightarrow> None
         | Some (temp, st) \<Rightarrow>
             (case place temp required_size st of (result, st) \<Rightarrow> Some (result + 4, st))))"

text \<open>
  \<open>memcpy dst src n\<close> copies the \<open>n\<close> values at \<open>src, src + 1, ...\<close> to \<open>dst, dst + 1, ...\<close>
  (the two ranges do not overlap where mm.c calls it).
\<close>

definition memcpy :: "int \<Rightarrow> int \<Rightarrow> int \<Rightarrow> heap \<Rightarrow> heap" where
  "memcpy dst src n st =
     st\<lparr>mem := (\<lambda>a. if dst \<le> a \<and> a < dst + n then mem st (src + (a - dst)) else mem st a)\<rparr>"

definition mm_realloc :: "int \<Rightarrow> size_t \<Rightarrow> heap \<Rightarrow> (int \<times> heap) option" where
  "mm_realloc ptr sz st =
     (if ptr = NULL then mm_malloc sz st
      else if sz = 0 then Some (NULL, mm_free ptr st)
      else
        (let block_header = ptr - 4;
             old_size = (word_of_int (to_int32 (mm_block_size st block_header - 8)) :: size_t)
         in if sz \<le> old_size then Some (ptr, st)
            else
              (let next_block = mm_block_next st block_header;
                   combined_size = (word_of_int (to_int32 (mm_block_size st block_header
                                                 + mm_block_size st next_block)) :: size_t)
               in if \<not> mm_block_allocated st next_block \<and> combined_size - 8 \<ge> sz then
                    (let st = mm_list_remove next_block st;
                         st = mm_block_set_header block_header (to_int32 (uint combined_size)) True st;
                         st = mm_block_set_footer block_header (to_int32 (uint combined_size)) True st
                     in Some (ptr, st))
                  else
                    (case mm_malloc sz st of
                       None \<Rightarrow> None
                     | Some (new_ptr, st) \<Rightarrow>
                         if new_ptr = NULL then Some (NULL, st)
                         else
                           (let tempp = to_int32 (uint (if old_size > sz then sz else old_size));
                                st = memcpy new_ptr ptr (uint (word_of_int tempp :: size_t)) st
                            in Some (new_ptr, mm_free ptr st))))))"

section \<open>Well-formed heaps and reachable states\<close>

text \<open>
  Code equations for the loop of \<open>mm_malloc\<close>, so that it can be run on concrete
  states.
\<close>

declare malloc_loop.simps [code]

text \<open>
  \<open>fresh_store base cap\<close> is the backing store before \<open>mm_init\<close>: an empty region at
  address \<open>base\<close> that can grow to \<open>cap\<close> bytes. \<open>store_ok\<close> says what the allocator
  expects of such a store: its start is a valid, 8-byte aligned address, and it is
  smaller than \<open>2 ^ 31\<close> bytes, so that every block size fits the \<open>int\<close> of a tag.
\<close>

definition fresh_store :: "int \<Rightarrow> int \<Rightarrow> heap" where
  "fresh_store base cap =
     \<lparr>mem = (\<lambda>_. 0), mem_brk = base, mem_max_addr = base + cap, heap_blocks = 0, mm_list = []\<rparr>"

definition store_ok :: "heap \<Rightarrow> bool" where
  "store_ok st = (0 < mem_brk st \<and> mem_brk st mod 8 = 0 \<and> mem_max_addr st - mem_brk st < 2 ^ 31)"

text \<open>\<open>set_tags b s al m\<close> is the store \<open>m\<close> after writing the header and the footer of a
  block of \<open>s\<close> bytes at \<open>b\<close>.\<close>

definition set_tags :: "int \<Rightarrow> int \<Rightarrow> bool \<Rightarrow> (int \<Rightarrow> int) \<Rightarrow> (int \<Rightarrow> int)" where
  "set_tags b s al m = m(b := pack s al, b + s - 4 := pack s al)"

text \<open>
  The layout of a heap is the list of its blocks in address order, each with its size
  and its allocation bit, starting with the prologue. \<open>chain m a bs\<close> says that the blocks
  \<open>bs\<close> lie one after the other from address \<open>a\<close> on, each with a positive size that is
  a multiple of 8 and with equal header and footer tags; \<open>total bs\<close> is the number of
  bytes they take, and \<open>addrs f a bs\<close> is the set of the addresses of the blocks whose
  allocation bit is \<open>f\<close>.
\<close>

fun total :: "(int \<times> bool) list \<Rightarrow> int" where
  "total [] = 0"
| "total ((s, al) # bs) = s + total bs"

fun chain :: "(int \<Rightarrow> int) \<Rightarrow> int \<Rightarrow> (int \<times> bool) list \<Rightarrow> bool" where
  "chain m a [] = True"
| "chain m a ((s, al) # bs) =
     (0 < s \<and> 8 dvd s \<and> m a = pack s al \<and> m (a + s - 4) = pack s al \<and> chain m (a + s) bs)"

fun addrs :: "bool \<Rightarrow> int \<Rightarrow> (int \<times> bool) list \<Rightarrow> int set" where
  "addrs f a [] = {}"
| "addrs f a ((s, al) # bs) = (if al = f then {a} else {}) \<union> addrs f (a + s) bs"

text \<open>
  \<open>blocks_ok st bs\<close>: the heap of \<open>st\<close> has the layout \<open>bs\<close>. The prologue (8 bytes,
  allocated) is at \<open>heap_blocks\<close>, whose payload address is 8-byte aligned; the blocks
  follow one another up to the epilogue (size 0, allocated), which is the last word of
  the region; the region is within the backing store.

  \<open>free_list_ok st bs\<close>: the free list holds exactly the blocks of \<open>bs\<close> whose allocation bit
  is false, each of them once.
\<close>

definition blocks_ok :: "heap \<Rightarrow> (int \<times> bool) list \<Rightarrow> bool" where
  "blocks_ok st bs =
     (0 < heap_blocks st \<and> heap_blocks st mod 8 = 4 \<and>
      bs \<noteq> [] \<and> hd bs = (8, True) \<and>
      chain (mem st) (heap_blocks st) bs \<and>
      mem st (heap_blocks st + total bs) = pack 0 True \<and>
      mem_brk st = heap_blocks st + total bs + 4 \<and>
      mem_brk st \<le> mem_max_addr st \<and>
      mem_max_addr st - heap_blocks st < 2 ^ 31)"

definition free_list_ok :: "heap \<Rightarrow> (int \<times> bool) list \<Rightarrow> bool" where
  "free_list_ok st bs =
     (distinct (mm_list st) \<and> set (mm_list st) = addrs False (heap_blocks st) bs)"

definition heap_ok :: "heap \<Rightarrow> (int \<times> bool) list \<Rightarrow> bool" where
  "heap_ok st bs = (blocks_ok st bs \<and> free_list_ok st bs)"

text \<open>
  What coalescing does to a layout: freeing the block of \<open>s\<close> bytes that lies between the
  blocks \<open>xs\<close> and the blocks \<open>ys\<close> merges it with the last block of \<open>xs\<close> and with the
  first block of \<open>ys\<close>, whichever of them are free. \<open>coalesce_list\<close> is the free list
  afterwards, for the block address \<open>b\<close> and the free list \<open>l\<close> before.
\<close>

definition prev_free :: "(int \<times> bool) list \<Rightarrow> bool" where
  "prev_free xs = (xs \<noteq> [] \<and> \<not> snd (last xs))"

definition next_free :: "(int \<times> bool) list \<Rightarrow> bool" where
  "next_free ys = (ys \<noteq> [] \<and> \<not> snd (hd ys))"

definition coalesce_blocks ::
  "(int \<times> bool) list \<Rightarrow> int \<Rightarrow> (int \<times> bool) list \<Rightarrow> (int \<times> bool) list" where
  "coalesce_blocks xs s ys =
     (if prev_free xs then butlast xs else xs) @
     ((if prev_free xs then fst (last xs) else 0) + s + (if next_free ys then fst (hd ys) else 0),
      False) #
     (if next_free ys then tl ys else ys)"

definition coalesce_list ::
  "(int \<times> bool) list \<Rightarrow> int \<Rightarrow> (int \<times> bool) list \<Rightarrow> int \<Rightarrow> int list \<Rightarrow> int list" where
  "coalesce_list xs s ys b l =
     (if prev_free xs then [] else [b]) @ (if next_free ys then remove1 (b + s) l else l)"

text \<open>
  What \<open>place\<close> does to a layout: the blocks that replace a free block of \<open>S\<close> bytes
  when \<open>R\<close> bytes of it are allocated, the address of the allocated piece, for a free
  block at \<open>b\<close>, and the free list afterwards.
\<close>

definition place_split :: "int \<Rightarrow> int \<Rightarrow> (int \<times> bool) list" where
  "place_split S R =
     (if S - R < 16 then [(S, True)]
      else if 75 \<le> R then [(S - R, False), (R, True)]
      else [(R, True), (S - R, False)])"

definition place_addr :: "int \<Rightarrow> int \<Rightarrow> int \<Rightarrow> int" where
  "place_addr b S R = (if 16 \<le> S - R \<and> 75 \<le> R then b + (S - R) else b)"

definition place_list :: "int \<Rightarrow> int \<Rightarrow> int \<Rightarrow> int list \<Rightarrow> int list" where
  "place_list b S R l =
     (if S - R < 16 then remove1 b l else if 75 \<le> R then l else (b + R) # remove1 b l)"

text \<open>The invariant of the loop of \<open>mm_malloc\<close>: the heap stays well formed, and the loop
  changes neither the set \<open>A\<close> of allocated blocks nor the globals.\<close>

definition loop_inv :: "int \<Rightarrow> int set \<Rightarrow> int \<Rightarrow> heap \<Rightarrow> bool" where
  "loop_inv h A M st =
     (heap_blocks st = h \<and> mem_max_addr st = M \<and> (\<exists>bs. heap_ok st bs \<and> addrs True h bs = A))"

text \<open>
  The states that a client can reach. \<open>reach ok st L\<close>: the state \<open>st\<close> is reached from a
  successful \<open>mm_init\<close> by calls of \<open>mm_malloc\<close>, \<open>mm_free\<close> and \<open>mm_realloc\<close> that return,
  and by writes of the client into the payloads it owns; \<open>L\<close> is the set of the live
  pointers, those that were returned to the client and not freed since. The client
  frees and resizes live pointers or \<open>NULL\<close> only, and requests sizes that satisfy \<open>ok\<close>.
  \<open>small_request\<close> are the sizes whose block size fits an \<open>int\<close>.
\<close>

definition small_request :: "size_t \<Rightarrow> bool" where
  "small_request n = (uint n + 15 < 2 ^ 31)"

inductive reach :: "(size_t \<Rightarrow> bool) \<Rightarrow> heap \<Rightarrow> int set \<Rightarrow> bool" for ok where
  init: "\<lbrakk>store_ok st0; mm_init st0 = (0, st)\<rbrakk> \<Longrightarrow> reach ok st {}"
| malloc: "\<lbrakk>reach ok st L; ok n; mm_malloc n st = Some (p, st')\<rbrakk>
     \<Longrightarrow> reach ok st' (if n = 0 then L else insert p L)"
| free: "\<lbrakk>reach ok st L; p = NULL \<or> p \<in> L\<rbrakk> \<Longrightarrow> reach ok (mm_free p st) (L - {p})"
| realloc: "\<lbrakk>reach ok st L; p = NULL \<or> p \<in> L; ok n; mm_realloc p n st = Some (q, st')\<rbrakk>
     \<Longrightarrow> reach ok st' (if n = 0 then L - {p} else insert q (L - {p}))"
| payload: "\<lbrakk>reach ok st L; p \<in> L; p \<le> a; a < p + (mm_block_size st (p - 4) - 8)\<rbrakk>
     \<Longrightarrow> reach ok (st\<lparr>mem := (mem st)(a := v)\<rparr>) L"

text \<open>
  Concrete heaps, for running the code: \<open>demo_heap\<close> is the heap after \<open>mm_init\<close> on a fresh
  store of 1 MiB at address 4096, and \<open>demo_heap1\<close> is that heap after \<open>mm_malloc 8\<close>.
  \<open>huge_request\<close> is a request of \<open>2 ^ 32 + 8\<close> bytes.
\<close>

definition demo_heap :: heap where
  "demo_heap = snd (mm_init (fresh_store 4096 1048576))"

definition demo_heap1 :: heap where
  "demo_heap1 = snd (the (mm_malloc 8 demo_heap))"

definition huge_request :: size_t where
  "huge_request = 0x100000008"

text \<open>
  \<open>any_request\<close> allows every size. \<open>tiny_heap\<close> is the heap after \<open>mm_init\<close> on a store of
  80 bytes.
\<close>

definition any_request :: "size_t \<Rightarrow> bool" where
  "any_request n = True"

definition tiny_heap :: heap where
  "tiny_heap = snd (mm_init (fresh_store 4096 80))"

text \<open>
  \<open>demo_heap2\<close>, \<open>demo_heap3\<close> and \<open>demo_heap4\<close> are the heaps after a second, a third and a
  fourth \<open>mm_malloc 8\<close>; the four calls return 4112, 4128, 4144 and 4160. The heaps
  \<open>overrun_heap1\<close> to \<open>overrun_heap4\<close> follow \<open>demo_heap4\<close>: after \<open>mm_free 4128\<close>, after
  \<open>mm_realloc 4112 16\<close>, which absorbs the block just freed, after \<open>mm_free 4144\<close>, and
  after \<open>mm_realloc 4112 huge_request\<close>.
\<close>

definition demo_heap2 :: heap where
  "demo_heap2 = snd (the (mm_malloc 8 demo_heap1))"

definition demo_heap3 :: heap where
  "demo_heap3 = snd (the (mm_malloc 8 demo_heap2))"

definition demo_heap4 :: heap where
  "demo_heap4 = snd (the (mm_malloc 8 demo_heap3))"

definition overrun_heap1 :: heap where
  "overrun_heap1 = mm_free 4128 demo_heap4"

definition overrun_heap2 :: heap where
  "overrun_heap2 = snd (the (mm_realloc 4112 16 overrun_heap1))"

definition overrun_heap3 :: heap where
  "overrun_heap3 = mm_free 4144 overrun_heap2"

definition overrun_heap4 :: heap where
  "overrun_heap4 = snd (the (mm_realloc 4112 huge_request overrun_heap3))"

text \<open>
  \<open>pair_heap1\<close> and \<open>pair_heap2\<close> are the heaps after one and two \<open>mm_malloc 40\<close> from
  \<open>demo_heap\<close>; the two calls return 4112 and 4160.
\<close>

definition pair_heap1 :: heap where
  "pair_heap1 = snd (the (mm_malloc 40 demo_heap))"

definition pair_heap2 :: heap where
  "pair_heap2 = snd (the (mm_malloc 40 pair_heap1))"

section \<open>Lemmas\<close>

lemma to_int32_id: "- (2 ^ 31) \<le> x \<Longrightarrow> x < 2 ^ 31 \<Longrightarrow> to_int32 x = x"
  by (simp add: to_int32_def)

lemma size_pack: "8 dvd s \<Longrightarrow> pack s al - pack s al mod 8 = s"
  by (auto simp: pack_def)

lemma alloc_pack: "8 dvd s \<Longrightarrow> (pack s al mod 2 = 1) = al"
  by (auto simp: pack_def) presburger+

lemma mm_block_size_pack: "mem st bp = pack s al \<Longrightarrow> 8 dvd s \<Longrightarrow> mm_block_size st bp = s"
  by (simp add: mm_block_size_def size_pack)

lemma mm_block_allocated_pack: "mem st bp = pack s al \<Longrightarrow> 8 dvd s \<Longrightarrow> mm_block_allocated st bp = al"
  by (simp add: mm_block_allocated_def alloc_pack)

lemma dvd_mm_block_size: "8 dvd mm_block_size st bp"
  by (simp add: mm_block_size_def)

lemma set_header_footer:
  "mm_block_set_footer b s al (mm_block_set_header b s al st) = st\<lparr>mem := set_tags b s al (mem st)\<rparr>"
  by (simp add: mm_block_set_footer_def mm_block_set_header_def set_tags_def)

lemma set_tags_apply:
  "set_tags b s al m x = (if x = b + s - 4 then pack s al else if x = b then pack s al else m x)"
  by (simp add: set_tags_def)

lemma size_set_header:
  "mm_block_size (mm_block_set_header a s al st) x =
     (if x = a then pack s al - pack s al mod 8 else mm_block_size st x)"
  by (simp add: mm_block_size_def mm_block_set_header_def)

lemma size_set_footer:
  "mm_block_size (mm_block_set_footer a s al st) x =
     (if x = a + s - 4 then pack s al - pack s al mod 8 else mm_block_size st x)"
  by (simp add: mm_block_size_def mm_block_set_footer_def)

lemma alloc_set_header:
  "mm_block_allocated (mm_block_set_header a s al st) x =
     (if x = a then pack s al mod 2 = 1 else mm_block_allocated st x)"
  by (simp add: mm_block_allocated_def mm_block_set_header_def)

lemma alloc_set_footer:
  "mm_block_allocated (mm_block_set_footer a s al st) x =
     (if x = a + s - 4 then pack s al mod 2 = 1 else mm_block_allocated st x)"
  by (simp add: mm_block_allocated_def mm_block_set_footer_def)

lemma size_list_ops:
  "mm_block_size (mm_list_prepend a st) x = mm_block_size st x"
  "mm_block_size (mm_list_remove a st) x = mm_block_size st x"
  "mm_block_allocated (mm_list_prepend a st) x = mm_block_allocated st x"
  "mm_block_allocated (mm_list_remove a st) x = mm_block_allocated st x"
  by (simp_all add: mm_block_size_def mm_block_allocated_def mm_list_prepend_def mm_list_remove_def)

lemmas read_over_write = size_set_header size_set_footer alloc_set_header alloc_set_footer
  size_list_ops size_pack alloc_pack mm_block_next_def mm_block_prev_def

lemma free_coalesce_eq:
  assumes hdr: "mm_block_size st b = s"
    and ftp: "mm_block_size st (b - 4) = sp"
    and hdp: "mm_block_size st (b - sp) = sp" "mm_block_allocated st (b - sp) = alp"
    and hdn: "mm_block_size st (b + s) = sn" "mm_block_allocated st (b + s) = aln"
    and pos: "0 < s" "0 < sp" "0 \<le> sn"
    and bound: "s + sp + sn < 2 ^ 31"
  shows "free_coalesce b st =
     (if alp then b else b - sp,
      st\<lparr>mem := set_tags (if alp then b else b - sp)
                       (s + (if alp then 0 else sp) + (if aln then 0 else sn)) False
                       (set_tags b s False (mem st)),
         mm_list := (if alp then [b] else []) @
                    (if aln then mm_list st else remove1 (b + s) (mm_list st))\<rparr>)"
proof -
  have d: "8 dvd s" "8 dvd sp" "8 dvd sn"
    using hdr ftp hdn dvd_mm_block_size by blast+
  then have ge: "8 \<le> s" "8 \<le> sp"
    using pos by (auto elim!: dvdE)
  have w: "to_int32 (s + sn) = s + sn" "to_int32 (s + sp) = s + sp"
    "to_int32 (sn + sp) = sn + sp" "to_int32 (s + (sn + sp)) = s + (sn + sp)"
    using pos bound by (simp_all add: to_int32_id)
  have dd: "8 dvd s + sn" "8 dvd s + sp" "8 dvd s + (sn + sp)"
    using d by simp_all
  show ?thesis
    unfolding free_coalesce_def Let_def
    using hdr ftp hdp hdn ge pos d dd
    apply (simp add: read_over_write w)
    apply (simp add: mm_block_set_footer_def mm_block_set_header_def mm_list_prepend_def
        mm_list_remove_def set_tags_def add.assoc add.commute[of sp sn])
    done
qed

lemma total_append: "total (xs @ ys) = total xs + total ys"
  by (induction xs) auto

lemma chain_append:
  "chain m a (xs @ ys) = (chain m a xs \<and> chain m (a + total xs) ys)"
  by (induction xs arbitrary: a) (auto simp: add.assoc)

lemma addrs_append:
  "addrs f a (xs @ ys) = addrs f a xs \<union> addrs f (a + total xs) ys"
  by (induction xs arbitrary: a) (auto simp: add.assoc)

lemma chain_total_nonneg: "chain m a bs \<Longrightarrow> 0 \<le> total bs"
  by (induction bs arbitrary: a) auto

lemma chain_total_dvd: "chain m a bs \<Longrightarrow> 8 dvd total bs"
  by (induction bs arbitrary: a) auto

lemma chain_cong:
  "chain m a bs \<Longrightarrow> (\<And>x. a \<le> x \<Longrightarrow> x < a + total bs \<Longrightarrow> m' x = m x) \<Longrightarrow> chain m' a bs"
proof (induction bs arbitrary: a)
  case Nil
  then show ?case by simp
next
  case (Cons p bs)
  obtain s al where p: "p = (s, al)" by (cases p)
  from Cons.prems(1) have c: "0 < s" "8 dvd s" "m a = pack s al" "m (a + s - 4) = pack s al"
    "chain m (a + s) bs"
    by (simp_all add: p)
  have t: "0 \<le> total bs" using c(5) by (rule chain_total_nonneg)
  have s8: "8 \<le> s" using c(1,2) by (auto elim!: dvdE)
  have "chain m' (a + s) bs"
    using c(5) by (rule Cons.IH) (use Cons.prems(2) c(1) in \<open>simp add: p\<close>)
  moreover have "m' a = m a" "m' (a + s - 4) = m (a + s - 4)"
    using t s8 by (auto intro!: Cons.prems(2) simp: p)
  ultimately show ?case using c by (simp add: p)
qed

lemma addrs_range:
  "chain m a bs \<Longrightarrow> x \<in> addrs f a bs \<Longrightarrow> a \<le> x \<and> x < a + total bs"
proof (induction bs arbitrary: a)
  case Nil
  then show ?case by simp
next
  case (Cons p bs)
  obtain s al where p: "p = (s, al)" by (cases p)
  from Cons.prems(1) have c: "0 < s" "chain m (a + s) bs"
    by (simp_all add: p)
  have t: "0 \<le> total bs" using c(2) by (rule chain_total_nonneg)
  show ?case
  proof (cases "x = a")
    case True
    then show ?thesis using c(1) t by (simp add: p)
  next
    case False
    then have "x \<in> addrs f (a + s) bs"
      using Cons.prems(2) by (auto simp: p split: if_splits)
    from Cons.IH [OF c(2) this] show ?thesis using c(1) by (simp add: p)
  qed
qed

lemma addrs_split:
  "x \<in> addrs f a bs \<Longrightarrow> \<exists>xs s ys. bs = xs @ (s, f) # ys \<and> x = a + total xs"
proof (induction bs arbitrary: a)
  case Nil
  then show ?case by simp
next
  case (Cons p bs)
  obtain s al where p: "p = (s, al)" by (cases p)
  show ?case
  proof (cases "al = f \<and> x = a")
    case True
    then have "p # bs = [] @ (s, f) # bs \<and> x = a + total []"
      by (simp add: p)
    then show ?thesis by blast
  next
    case False
    then have "x \<in> addrs f (a + s) bs"
      using Cons.prems by (auto simp: p split: if_splits)
    from Cons.IH [OF this] obtain xs s' ys where
      "bs = xs @ (s', f) # ys" "x = a + s + total xs" by blast
    then have "p # bs = (p # xs) @ (s', f) # ys \<and> x = a + total (p # xs)"
      by (simp add: p)
    then show ?thesis by blast
  qed
qed

lemma chain_pos: "chain m a bs \<Longrightarrow> \<forall>p\<in>set bs. 0 < fst p"
  by (induction bs arbitrary: a) fastforce+

lemma pos_total_nonneg: "\<forall>p\<in>set bs. 0 < fst p \<Longrightarrow> 0 \<le> total bs"
  by (induction bs) auto

lemma addrs_range_pos:
  "\<forall>p\<in>set bs. 0 < fst p \<Longrightarrow> x \<in> addrs f a bs \<Longrightarrow> a \<le> x \<and> x < a + total bs"
proof (induction bs arbitrary: a)
  case Nil
  then show ?case by simp
next
  case (Cons p bs)
  obtain s al where p: "p = (s, al)" by (cases p)
  from Cons.prems(1) have c: "0 < s" "\<forall>p\<in>set bs. 0 < fst p"
    by (simp_all add: p)
  have t: "0 \<le> total bs" using c(2) by (rule pos_total_nonneg)
  show ?case
  proof (cases "x = a")
    case True
    then show ?thesis using c(1) t by (simp add: p)
  next
    case False
    then have "x \<in> addrs f (a + s) bs"
      using Cons.prems(2) by (auto simp: p split: if_splits)
    from Cons.IH [OF c(2) this] show ?thesis using c(1) by (simp add: p)
  qed
qed

lemma addrs_replace:
  assumes pos: "\<forall>p\<in>set (xs @ mid @ ys). 0 < fst p"
    and tot: "total mid' = total mid"
  shows "addrs f h (xs @ mid' @ ys) =
         (addrs f h (xs @ mid @ ys) - addrs f (h + total xs) mid) \<union> addrs f (h + total xs) mid'"
proof -
  have 1: "\<And>x. x \<in> addrs f h xs \<Longrightarrow> x < h + total xs"
    using addrs_range_pos [of xs _ f h] pos by auto
  have 2: "\<And>x. x \<in> addrs f (h + total xs) mid \<Longrightarrow> h + total xs \<le> x \<and> x < h + total xs + total mid"
    using addrs_range_pos [of mid _ f "h + total xs"] pos by auto
  have 3: "\<And>x. x \<in> addrs f (h + total xs + total mid) ys \<Longrightarrow> h + total xs + total mid \<le> x"
    using addrs_range_pos [of ys _ f "h + total xs + total mid"] pos by auto
  show ?thesis
    using 1 2 3 by (fastforce simp: addrs_append total_append tot add.assoc)
qed

lemma heap_ok_replace:
  assumes lay: "blocks_ok st (xs @ mid0 @ ys)" and fl: "free_list_ok st (xs @ mid @ ys)"
    and xs: "xs \<noteq> []" and a: "a = heap_blocks st + total xs"
    and tot: "total mid0 = total mid" "total mid' = total mid"
    and pos: "\<forall>p\<in>set mid. 0 < fst p"
    and frame: "\<And>x. x < a \<or> a + total mid \<le> x \<Longrightarrow> m' x = mem st x"
    and ch: "chain m' a mid'"
    and dl: "distinct l'"
    and sl: "set l' = (set (mm_list st) - addrs False a mid) \<union> addrs False a mid'"
  shows "heap_ok (st\<lparr>mem := m', mm_list := l'\<rparr>) (xs @ mid' @ ys)"
proof -
  let ?h = "heap_blocks st"
  from lay have c: "chain (mem st) ?h xs" "chain (mem st) (a + total mid) ys"
    by (simp_all add: blocks_ok_def chain_append a tot total_append add.assoc)
  have t: "0 \<le> total xs" "0 \<le> total ys"
    using c chain_total_nonneg by blast+
  have c1: "chain m' ?h xs"
    using c(1) by (rule chain_cong) (simp add: frame a)
  have c2: "chain m' (a + total mid) ys"
    using c(2) by (rule chain_cong) (simp add: frame)
  have tm: "0 \<le> total mid"
    using pos by (rule pos_total_nonneg)
  have "blocks_ok (st\<lparr>mem := m', mm_list := l'\<rparr>) (xs @ mid' @ ys)"
    using lay xs c1 c2 ch t tm
    by (simp add: blocks_ok_def chain_append total_append tot a add.assoc frame)
  moreover have "\<forall>p\<in>set (xs @ mid @ ys). 0 < fst p"
    using chain_pos [OF c(1)] chain_pos [OF c(2)] pos by auto
  then have "addrs False ?h (xs @ mid' @ ys) = set l'"
    using fl by (simp add: addrs_replace [where mid = mid and mid' = mid'] tot sl a free_list_ok_def)
  then have "free_list_ok (st\<lparr>mem := m', mm_list := l'\<rparr>) (xs @ mid' @ ys)"
    using dl by (simp add: free_list_ok_def)
  ultimately show ?thesis by (simp add: heap_ok_def)
qed

lemma ge8: "0 < (s::int) \<Longrightarrow> 8 dvd s \<Longrightarrow> 8 \<le> s"
  by (auto elim!: dvdE)

lemma block_not_free:
  assumes "\<forall>p\<in>set (xs @ (s, True) # ys). 0 < fst p"
  shows "h + total xs \<notin> addrs False h (xs @ (s, True) # ys)"
proof
  assume "h + total xs \<in> addrs False h (xs @ (s, True) # ys)"
  then consider "h + total xs \<in> addrs False h xs" | "h + total xs \<in> addrs False (h + total xs + s) ys"
    by (auto simp: addrs_append)
  then show False
  proof cases
    case 1
    then show False using addrs_range_pos [of xs "h + total xs" False h] assms by auto
  next
    case 2
    then show False using addrs_range_pos [of ys "h + total xs" False "h + total xs + s"] assms by auto
  qed
qed

lemma free_coalesce_heap_ok:
  assumes lay: "blocks_ok st (xs @ (s, al) # ys)"
    and fl: "free_list_ok st (xs @ (s, True) # ys)"
    and xs: "xs \<noteq> []"
    and b: "b = heap_blocks st + total xs"
  shows "heap_ok (snd (free_coalesce b st)) (coalesce_blocks xs s ys)"
    and "fst (free_coalesce b st) = (if prev_free xs then b - fst (last xs) else b)"
    and "mm_list (snd (free_coalesce b st)) = coalesce_list xs s ys b (mm_list st)"
    and "addrs True (heap_blocks st) (coalesce_blocks xs s ys) =
           addrs True (heap_blocks st) (xs @ (s, True) # ys) - {b}"
    and "heap_blocks (snd (free_coalesce b st)) = heap_blocks st"
    and "mem_brk (snd (free_coalesce b st)) = mem_brk st"
    and "mem_max_addr (snd (free_coalesce b st)) = mem_max_addr st"
proof -
  let ?h = "heap_blocks st" and ?m = "mem st" and ?l = "mm_list st"
  let ?bs = "xs @ (s, True) # ys"
  obtain xs0 sp alp where xs0: "xs = xs0 @ [(sp, alp)]"
    using xs by (cases xs rule: rev_cases) auto
  have ch: "chain ?m ?h (xs @ (s, al) # ys)" and epi: "?m (?h + total ?bs) = pack 0 True"
    and brk: "mem_brk st = ?h + total ?bs + 4" "mem_brk st \<le> mem_max_addr st"
      "mem_max_addr st - ?h < 2 ^ 31"
    and hd: "hd (xs @ (s, al) # ys) = (8, True)"
    using lay by (simp_all add: blocks_ok_def total_append)
  have cp: "0 < sp" "8 dvd sp" "?m (b - sp) = pack sp alp" "?m (b - 4) = pack sp alp"
    and cxs0: "chain ?m ?h xs0"
    and cb: "0 < s" "8 dvd s" "?m b = pack s al" "chain ?m (b + s) ys"
    using ch by (simp_all add: xs0 chain_append total_append b add.assoc)
  have pos: "\<forall>p\<in>set ?bs. 0 < fst p"
    using chain_pos [OF ch] by auto
  have txs0: "0 \<le> total xs0" and tys: "0 \<le> total ys"
    using cxs0 cb(4) chain_total_nonneg by blast+
  have dl: "distinct ?l" and sl: "set ?l = addrs False ?h ?bs"
    using fl by (simp_all add: free_list_ok_def)
  have bnl: "b \<notin> set ?l"
    unfolding sl b using pos by (rule block_not_free)
  obtain sn aln where nx: "?m (b + s) = pack sn aln" "8 dvd sn" "0 \<le> sn"
    and ys: "(ys = [] \<and> aln \<and> sn = 0) \<or> (\<exists>ys'. ys = (sn, aln) # ys' \<and> 0 < sn)"
  proof (cases ys)
    case Nil
    then have "?m (b + s) = pack 0 True"
      using epi by (simp add: total_append b add.assoc)
    then show ?thesis using Nil that by simp
  next
    case (Cons p ys')
    then show ?thesis using cb(4) that by (cases p) auto
  qed
  have tb: "total ?bs = total xs0 + sp + s + total ys"
    by (simp add: xs0 total_append)
  have "sn \<le> total ys"
    using ys tys chain_total_nonneg [of ?m _ "tl ys"] cb(4) by auto
  then have bound: "s + sp + sn < 2 ^ 31"
    using brk tb txs0 by simp
  have sizes: "mm_block_size st b = s" "mm_block_size st (b - 4) = sp"
    "mm_block_size st (b - sp) = sp" "mm_block_allocated st (b - sp) = alp"
    "mm_block_size st (b + s) = sn" "mm_block_allocated st (b + s) = aln"
    using cp cb nx by (simp_all add: mm_block_size_pack mm_block_allocated_pack)
  note eq = free_coalesce_eq [OF sizes cb(1) cp(1) nx(3) bound]
  have s8: "8 \<le> s" "8 \<le> sp"
    using cb cp by (simp_all add: ge8)
  have fields: "heap_blocks (snd (free_coalesce b st)) = ?h"
    "mem_brk (snd (free_coalesce b st)) = mem_brk st"
    "mem_max_addr (snd (free_coalesce b st)) = mem_max_addr st"
    by (simp_all add: eq)
  have xs0ne: "\<not> alp \<Longrightarrow> xs0 \<noteq> []"
    using hd by (auto simp: xs0)
  have a0: "b - sp = ?h + total xs0"
    by (simp add: b xs0 total_append)
  have "heap_ok (snd (free_coalesce b st)) (coalesce_blocks xs s ys) \<and>
        fst (free_coalesce b st) = (if prev_free xs then b - fst (last xs) else b) \<and>
        mm_list (snd (free_coalesce b st)) = coalesce_list xs s ys b ?l \<and>
        addrs True ?h (coalesce_blocks xs s ys) = addrs True ?h ?bs - {b}"
  proof (cases alp)
    case True
    note alp = True
    show ?thesis
    proof (cases aln)
      case True
      let ?bs' = "xs @ [(s, False)] @ ys"
      have "heap_ok (st\<lparr>mem := set_tags b s False (set_tags b s False ?m), mm_list := b # ?l\<rparr>) ?bs'"
      proof (rule heap_ok_replace [where ?mid0.0 = "[(s, al)]" and mid = "[(s, True)]"])
        show "blocks_ok st (xs @ [(s, al)] @ ys)" using lay by simp
        show "free_list_ok st (xs @ [(s, True)] @ ys)" using fl by simp
        show "chain (set_tags b s False (set_tags b s False ?m)) b [(s, False)]"
          using cb by (simp add: set_tags_apply)
        show "set (b # ?l) = set ?l - addrs False b [(s, True)] \<union> addrs False b [(s, False)]"
          by auto
        show "\<And>x. x < b \<or> b + total [(s, True)] \<le> x \<Longrightarrow>
                set_tags b s False (set_tags b s False ?m) x = ?m x"
          using s8 by (auto simp: set_tags_apply)
      qed (use xs b cb dl bnl in simp_all)
      moreover have "addrs True ?h ?bs' = addrs True ?h ?bs - {b}"
        using addrs_replace [of xs "[(s, True)]" ys "[(s, False)]" True ?h] pos
        by (simp add: b)
      moreover have "coalesce_blocks xs s ys = ?bs'" "prev_free xs = False"
        "coalesce_list xs s ys b ?l = b # ?l"
        using alp True ys
        by (auto simp: coalesce_blocks_def coalesce_list_def prev_free_def next_free_def xs0)
      ultimately show ?thesis
        using alp True by (simp add: eq)
    next
      case False
      then obtain ys' where ys': "ys = (sn, False) # ys'" and sn: "0 < sn"
        using ys by auto
      let ?bs' = "xs @ [(s + sn, False)] @ ys'"
      have "heap_ok (st\<lparr>mem := set_tags b (s + sn) False (set_tags b s False ?m),
                        mm_list := b # remove1 (b + s) ?l\<rparr>) ?bs'"
      proof (rule heap_ok_replace [where ?mid0.0 = "[(s, al), (sn, False)]"
                                     and mid = "[(s, True), (sn, False)]"])
        show "blocks_ok st (xs @ [(s, al), (sn, False)] @ ys')" using lay ys' by simp
        show "free_list_ok st (xs @ [(s, True), (sn, False)] @ ys')" using fl ys' by simp
        show "chain (set_tags b (s + sn) False (set_tags b s False ?m)) b [(s + sn, False)]"
          using cb nx sn by (simp add: set_tags_apply)
        show "set (b # remove1 (b + s) ?l) =
                set ?l - addrs False b [(s, True), (sn, False)] \<union> addrs False b [(s + sn, False)]"
          using dl by auto
        show "\<And>x. x < b \<or> b + total [(s, True), (sn, False)] \<le> x \<Longrightarrow>
                set_tags b (s + sn) False (set_tags b s False ?m) x = ?m x"
          using s8 sn by (auto simp: set_tags_apply)
        show "distinct (b # remove1 (b + s) ?l)"
          using dl bnl by (auto dest: notin_set_remove1)
      qed (use xs b cb sn in simp_all)
      moreover have "addrs True ?h ?bs' = addrs True ?h ?bs - {b}"
        using addrs_replace [of xs "[(s, True), (sn, False)]" ys' "[(s + sn, False)]" True ?h] pos
        by (simp add: b ys')
      moreover have "coalesce_blocks xs s ys = ?bs'" "prev_free xs = False"
        "coalesce_list xs s ys b ?l = b # remove1 (b + s) ?l"
        using alp False
        by (auto simp: coalesce_blocks_def coalesce_list_def prev_free_def next_free_def xs0 ys')
      ultimately show ?thesis
        using alp False by (simp add: eq)
    qed
  next
    case False
    note alp = False
    have ne: "xs0 \<noteq> []" using xs0ne False by simp
    have ain: "b - sp \<in> set ?l"
      unfolding sl using False by (simp add: xs0 addrs_append a0)
    show ?thesis
    proof (cases aln)
      case True
      let ?bs' = "xs0 @ [(sp + s, False)] @ ys"
      have "heap_ok (st\<lparr>mem := set_tags (b - sp) (s + sp) False (set_tags b s False ?m),
                        mm_list := ?l\<rparr>) ?bs'"
      proof (rule heap_ok_replace [where ?mid0.0 = "[(sp, False), (s, al)]"
                                     and mid = "[(sp, False), (s, True)]"])
        show "blocks_ok st (xs0 @ [(sp, False), (s, al)] @ ys)" using lay xs0 alp by simp
        show "free_list_ok st (xs0 @ [(sp, False), (s, True)] @ ys)" using fl xs0 alp by simp
        show "chain (set_tags (b - sp) (s + sp) False (set_tags b s False ?m)) (b - sp) [(sp + s, False)]"
          using cb cp by (simp add: set_tags_apply add.commute)
        show "set ?l = set ?l - addrs False (b - sp) [(sp, False), (s, True)]
                \<union> addrs False (b - sp) [(sp + s, False)]"
          using ain by auto
        show "\<And>x. x < b - sp \<or> b - sp + total [(sp, False), (s, True)] \<le> x \<Longrightarrow>
                set_tags (b - sp) (s + sp) False (set_tags b s False ?m) x = ?m x"
          using s8 by (auto simp: set_tags_apply)
      qed (use ne a0 cb cp dl in simp_all)
      moreover have "addrs True ?h ?bs' = addrs True ?h ?bs - {b}"
        using addrs_replace [of xs0 "[(sp, False), (s, True)]" ys "[(sp + s, False)]" True ?h] pos
        by (simp add: a0 [symmetric] xs0 alp)
      moreover have "coalesce_blocks xs s ys = ?bs'" "prev_free xs = True" "fst (last xs) = sp"
        "coalesce_list xs s ys b ?l = ?l"
        using alp True ys
        by (auto simp: coalesce_blocks_def coalesce_list_def prev_free_def next_free_def xs0)
      ultimately show ?thesis
        using alp True by (simp add: eq add.commute)
    next
      case False
      then obtain ys' where ys': "ys = (sn, False) # ys'" and sn: "0 < sn"
        using ys by auto
      let ?bs' = "xs0 @ [(sp + s + sn, False)] @ ys'"
      have "heap_ok (st\<lparr>mem := set_tags (b - sp) (s + sp + sn) False (set_tags b s False ?m),
                        mm_list := remove1 (b + s) ?l\<rparr>) ?bs'"
      proof (rule heap_ok_replace [where ?mid0.0 = "[(sp, False), (s, al), (sn, False)]"
                                     and mid = "[(sp, False), (s, True), (sn, False)]"])
        show "blocks_ok st (xs0 @ [(sp, False), (s, al), (sn, False)] @ ys')"
          using lay xs0 alp ys' by simp
        show "free_list_ok st (xs0 @ [(sp, False), (s, True), (sn, False)] @ ys')"
          using fl xs0 alp ys' by simp
        show "chain (set_tags (b - sp) (s + sp + sn) False (set_tags b s False ?m)) (b - sp)
                [(sp + s + sn, False)]"
          using cb cp nx sn by (simp add: set_tags_apply add.commute add.left_commute)
        show "set (remove1 (b + s) ?l) =
                set ?l - addrs False (b - sp) [(sp, False), (s, True), (sn, False)]
                \<union> addrs False (b - sp) [(sp + s + sn, False)]"
          using ain dl s8 by auto
        show "\<And>x. x < b - sp \<or> b - sp + total [(sp, False), (s, True), (sn, False)] \<le> x \<Longrightarrow>
                set_tags (b - sp) (s + sp + sn) False (set_tags b s False ?m) x = ?m x"
          using s8 sn by (auto simp: set_tags_apply)
      qed (use ne a0 cb cp dl sn in simp_all)
      moreover have "addrs True ?h ?bs' = addrs True ?h ?bs - {b}"
        using addrs_replace [of xs0 "[(sp, False), (s, True), (sn, False)]" ys'
            "[(sp + s + sn, False)]" True ?h] pos
        by (simp add: a0 [symmetric] xs0 alp ys')
      moreover have "coalesce_blocks xs s ys = ?bs'" "prev_free xs = True" "fst (last xs) = sp"
        "coalesce_list xs s ys b ?l = remove1 (b + s) ?l"
        using alp False
        by (auto simp: coalesce_blocks_def coalesce_list_def prev_free_def next_free_def xs0 ys')
      ultimately show ?thesis
        using alp False by (simp add: eq add.commute add.left_commute)
    qed
  qed
  then show "heap_ok (snd (free_coalesce b st)) (coalesce_blocks xs s ys)"
    and "fst (free_coalesce b st) = (if prev_free xs then b - fst (last xs) else b)"
    and "mm_list (snd (free_coalesce b st)) = coalesce_list xs s ys b (mm_list st)"
    and "addrs True (heap_blocks st) (coalesce_blocks xs s ys) =
           addrs True (heap_blocks st) (xs @ (s, True) # ys) - {b}"
    by simp_all
  show "heap_blocks (snd (free_coalesce b st)) = heap_blocks st"
    and "mem_brk (snd (free_coalesce b st)) = mem_brk st"
    and "mem_max_addr (snd (free_coalesce b st)) = mem_max_addr st"
    using fields by simp_all
qed

lemma place_eq:
  assumes sz: "mm_block_size st b = S"
    and R: "0 < R" "R \<le> S" "8 dvd R" and S: "S < 2 ^ 31"
  shows "place b R st =
     (if S - R \<ge> 16 then
        (if R \<ge> 75 then
           (b + (S - R),
            st\<lparr>mem := set_tags b (S - R) False (set_tags (b + (S - R)) R True (mem st))\<rparr>)
         else
           (b, st\<lparr>mem := set_tags (b + R) (S - R) False (set_tags b R True (mem st)),
                  mm_list := remove1 b ((b + R) # mm_list st)\<rparr>))
      else (b, st\<lparr>mem := set_tags b S True (mem st), mm_list := remove1 b (mm_list st)\<rparr>))"
proof -
  have d: "8 dvd S" "8 dvd S - R"
    using sz dvd_mm_block_size R by auto
  have w: "to_int32 (S - R) = S - R"
    using R S by (simp add: to_int32_id)
  have R8: "8 \<le> R" using R by (simp add: ge8)
  show ?thesis
    unfolding place_def Let_def
    using sz R8 d R
    apply (simp add: read_over_write w)
    apply (simp add: mm_block_set_footer_def mm_block_set_header_def mm_list_prepend_def
        mm_list_remove_def set_tags_def)
    done
qed

lemma inside_not_addr:
  assumes pos: "\<forall>p\<in>set (xs @ (s, al) # ys). 0 < fst p"
    and d: "0 \<le> d" "d < s" "al \<noteq> f \<or> 0 < d"
  shows "h + total xs + d \<notin> addrs f h (xs @ (s, al) # ys)"
proof
  assume "h + total xs + d \<in> addrs f h (xs @ (s, al) # ys)"
  then consider "h + total xs + d \<in> addrs f h xs" | "al = f" "d = 0"
    | "h + total xs + d \<in> addrs f (h + total xs + s) ys"
    by (auto simp: addrs_append split: if_splits)
  then show False
  proof cases
    case 1
    then show False using addrs_range_pos [of xs "h + total xs + d" f h] pos d by auto
  next
    case 2
    then show False using d by simp
  next
    case 3
    then show False
      using addrs_range_pos [of ys "h + total xs + d" f "h + total xs + s"] pos d by auto
  qed
qed

lemma place_heap_ok:
  assumes ok: "heap_ok st (xs @ (S, False) # ys)"
    and b: "b = heap_blocks st + total xs"
    and R: "0 < R" "R \<le> S" "8 dvd R"
  shows "\<exists>st'. place b R st = (place_addr b S R, st') \<and>
           heap_ok st' (xs @ place_split S R @ ys) \<and>
           mm_list st' = place_list b S R (mm_list st) \<and>
           total (xs @ place_split S R @ ys) = total (xs @ (S, False) # ys) \<and>
           addrs True (heap_blocks st) (xs @ place_split S R @ ys) =
             insert (place_addr b S R) (addrs True (heap_blocks st) (xs @ (S, False) # ys)) \<and>
           place_addr b S R \<notin> addrs True (heap_blocks st) (xs @ (S, False) # ys) \<and>
           heap_blocks st < place_addr b S R \<and> place_addr b S R mod 8 = 4 \<and>
           R \<le> mm_block_size st' (place_addr b S R) \<and>
           mm_block_allocated st' (place_addr b S R) \<and>
           heap_blocks st' = heap_blocks st \<and> mem_brk st' = mem_brk st \<and>
           mem_max_addr st' = mem_max_addr st"
proof -
  let ?h = "heap_blocks st" and ?m = "mem st" and ?l = "mm_list st"
  let ?bs = "xs @ (S, False) # ys"
  have lay: "blocks_ok st ?bs" and fl: "free_list_ok st ?bs"
    using ok by (simp_all add: heap_ok_def)
  have ch: "chain ?m ?h ?bs"
    and brk: "mem_brk st = ?h + total ?bs + 4" "mem_brk st \<le> mem_max_addr st"
      "mem_max_addr st - ?h < 2 ^ 31"
    and hd: "hd ?bs = (8, True)" and h8: "?h mod 8 = 4" "0 < ?h"
    using lay by (simp_all add: blocks_ok_def)
  have xs: "xs \<noteq> []" using hd by (cases xs) auto
  have cxs: "chain ?m ?h xs" and cb: "0 < S" "8 dvd S" "?m b = pack S False"
    using ch by (simp_all add: chain_append b)
  have pos: "\<forall>p\<in>set ?bs. 0 < fst p"
    using chain_pos [OF ch] by auto
  have txs: "0 < total xs"
    using cxs hd xs by (cases xs) (auto dest: chain_total_nonneg)
  have dxs: "8 dvd total xs" using cxs by (rule chain_total_dvd)
  have cys: "chain ?m (b + S) ys"
    using ch by (simp add: chain_append b)
  have tys: "0 \<le> total ys"
    using cys by (rule chain_total_nonneg)
  have S31: "S < 2 ^ 31" using brk txs tys by (simp add: total_append)
  have dl: "distinct ?l" and sl: "set ?l = addrs False ?h ?bs"
    using fl by (simp_all add: free_list_ok_def)
  have bin: "b \<in> set ?l"
    unfolding sl by (simp add: addrs_append b)
  have sz: "mm_block_size st b = S"
    using cb by (simp add: mm_block_size_pack)
  note eq = place_eq [OF sz R S31]
  have R8: "8 \<le> R" using R by (simp add: ge8)
  have b8: "b mod 8 = 4" using h8 dxs by (simp add: b mod_add_eq dvd_eq_mod_eq_0) presburger
  have bh: "?h < b" using txs by (simp add: b)
  have fresh: "\<And>d. 0 \<le> d \<Longrightarrow> d < S \<Longrightarrow> b + d \<notin> addrs True ?h ?bs"
    unfolding b using pos by (rule inside_not_addr) simp_all
  show ?thesis
  proof (cases "16 \<le> S - R")
    case False
    let ?bs' = "xs @ [(S, True)] @ ys"
    let ?st' = "st\<lparr>mem := set_tags b S True ?m, mm_list := remove1 b ?l\<rparr>"
    have "heap_ok ?st' ?bs'"
    proof (rule heap_ok_replace [where ?mid0.0 = "[(S, False)]" and mid = "[(S, False)]"])
      show "blocks_ok st (xs @ [(S, False)] @ ys)" using lay by simp
      show "free_list_ok st (xs @ [(S, False)] @ ys)" using fl by simp
      show "chain (set_tags b S True ?m) b [(S, True)]"
        using cb by (simp add: set_tags_apply)
      show "set (remove1 b ?l) = set ?l - addrs False b [(S, False)] \<union> addrs False b [(S, True)]"
        using dl by auto
      show "\<And>x. x < b \<or> b + total [(S, False)] \<le> x \<Longrightarrow> set_tags b S True ?m x = ?m x"
        using cb by (auto simp: set_tags_apply)
    qed (use xs b cb dl in simp_all)
    moreover have "addrs True ?h ?bs' = insert b (addrs True ?h ?bs)"
      using addrs_replace [of xs "[(S, False)]" ys "[(S, True)]" True ?h] pos
      by (simp add: b)
    moreover have "mm_block_size ?st' b = S" "mm_block_allocated ?st' b"
      using cb ge8 [of S] by (simp_all add: mm_block_size_def mm_block_allocated_def set_tags_apply size_pack alloc_pack)
    ultimately show ?thesis
      using False R b8 bh fresh [of 0] cb by (intro exI [of _ ?st'])
        (simp add: eq total_append place_split_def place_addr_def place_list_def)
  next
    case True
    note split = True
    have dSR: "8 dvd S - R" using cb R by simp
    show ?thesis
    proof (cases "75 \<le> R")
      case True
      let ?bs' = "xs @ [(S - R, False), (R, True)] @ ys"
      let ?st' = "st\<lparr>mem := set_tags b (S - R) False (set_tags (b + (S - R)) R True ?m)\<rparr>"
      have "heap_ok (st\<lparr>mem := set_tags b (S - R) False (set_tags (b + (S - R)) R True ?m),
                        mm_list := ?l\<rparr>) ?bs'"
      proof (rule heap_ok_replace [where ?mid0.0 = "[(S, False)]" and mid = "[(S, False)]"])
        show "blocks_ok st (xs @ [(S, False)] @ ys)" using lay by simp
        show "free_list_ok st (xs @ [(S, False)] @ ys)" using fl by simp
        show "chain (set_tags b (S - R) False (set_tags (b + (S - R)) R True ?m)) b
                [(S - R, False), (R, True)]"
          using cb R R8 split dSR by (simp add: set_tags_apply)
        show "set ?l = set ?l - addrs False b [(S, False)] \<union> addrs False b [(S - R, False), (R, True)]"
          using bin by auto
        show "\<And>x. x < b \<or> b + total [(S, False)] \<le> x \<Longrightarrow>
                 set_tags b (S - R) False (set_tags (b + (S - R)) R True ?m) x = ?m x"
          using cb R8 split by (auto simp: set_tags_apply)
      qed (use xs b cb dl in simp_all)
      then have "heap_ok ?st' ?bs'" by simp
      moreover have "addrs True ?h ?bs' = insert (b + (S - R)) (addrs True ?h ?bs)"
        using addrs_replace [of xs "[(S, False)]" ys "[(S - R, False), (R, True)]" True ?h] pos
        by (simp add: b)
      moreover have "mm_block_size ?st' (b + (S - R)) = R" "mm_block_allocated ?st' (b + (S - R))"
        using R R8 split by (simp_all add: mm_block_size_def mm_block_allocated_def set_tags_apply size_pack alloc_pack)
      moreover have "(b + (S - R)) mod 8 = 4"
        using b8 dSR by presburger
      ultimately show ?thesis
        using split True R bh fresh [of "S - R"]
        by (intro exI [of _ ?st'])
          (simp add: eq total_append place_split_def place_addr_def place_list_def)
    next
      case False
      let ?bs' = "xs @ [(R, True), (S - R, False)] @ ys"
      let ?st' = "st\<lparr>mem := set_tags (b + R) (S - R) False (set_tags b R True ?m),
                     mm_list := remove1 b ((b + R) # ?l)\<rparr>"
      have bR: "b + R \<notin> set ?l"
      proof
        assume "b + R \<in> set ?l"
        then consider "b + R \<in> addrs False ?h xs" | "b + R = b" | "b + R \<in> addrs False (b + S) ys"
          by (auto simp: sl addrs_append b)
        then show False
        proof cases
          case 1
          then show ?thesis using addrs_range_pos [of xs "b + R" False ?h] pos R by (auto simp: b)
        next
          case 2
          then show ?thesis using R by simp
        next
          case 3
          then show ?thesis using addrs_range_pos [of ys "b + R" False "b + S"] pos split by auto
        qed
      qed
      have "heap_ok ?st' ?bs'"
      proof (rule heap_ok_replace [where ?mid0.0 = "[(S, False)]" and mid = "[(S, False)]"])
        show "blocks_ok st (xs @ [(S, False)] @ ys)" using lay by simp
        show "free_list_ok st (xs @ [(S, False)] @ ys)" using fl by simp
        show "chain (set_tags (b + R) (S - R) False (set_tags b R True ?m)) b
                [(R, True), (S - R, False)]"
          using cb R R8 split dSR by (simp add: set_tags_apply)
        show "set (remove1 b ((b + R) # ?l)) =
                set ?l - addrs False b [(S, False)] \<union> addrs False b [(R, True), (S - R, False)]"
          using dl R by auto
        show "\<And>x. x < b \<or> b + total [(S, False)] \<le> x \<Longrightarrow>
                 set_tags (b + R) (S - R) False (set_tags b R True ?m) x = ?m x"
          using cb R8 split by (auto simp: set_tags_apply)
        show "distinct (remove1 b ((b + R) # ?l))"
          using dl bR R by (auto dest: notin_set_remove1)
      qed (use xs b cb in simp_all)
      moreover have "addrs True ?h ?bs' = insert b (addrs True ?h ?bs)"
        using addrs_replace [of xs "[(S, False)]" ys "[(R, True), (S - R, False)]" True ?h] pos
        by (simp add: b)
      moreover have "mm_block_size ?st' b = R" "mm_block_allocated ?st' b"
        using R R8 split by (simp_all add: mm_block_size_def mm_block_allocated_def set_tags_apply size_pack alloc_pack)
      ultimately show ?thesis
        using split False R b8 bh fresh [of 0] cb
        by (intro exI [of _ ?st'])
        (simp add: eq total_append place_split_def place_addr_def place_list_def)
    qed
  qed
qed

lemma required_block_size_eq:
  assumes "0 \<le> n" "n + 15 < 2 ^ 31"
  shows "required_block_size (to_int32 n) = (n + 15) div 8 * 8"
proof -
  have 1: "to_int32 n = n" "to_int32 (n + 8) = n + 8" "to_int32 (n + 15) = n + 15"
    using assms by (simp_all add: to_int32_id)
  have 2: "(n + 15) sdiv 8 = (n + 15) div 8"
    using assms by (simp add: signed_divide_int_def sgn_if)
  have 3: "(n + 15) div 8 * 8 \<le> n + 15" "0 \<le> (n + 15) div 8 * 8"
    using assms by simp_all
  have 4: "to_int32 ((n + 15) div 8 * 8) = (n + 15) div 8 * 8"
    using 3 assms by (intro to_int32_id) simp_all
  have 5: "n + 8 + 7 = n + 15" by simp
  show ?thesis
    by (simp only: required_block_size_def Let_def 1 5 2 4)
qed

lemma required_bounds:
  fixes n :: int
  assumes "0 < n" "n + 15 < 2 ^ 31"
  shows "16 \<le> (n + 15) div 8 * 8" "n + 8 \<le> (n + 15) div 8 * 8" "8 dvd (n + 15) div 8 * 8"
    "(n + 15) div 8 * 8 < 2 ^ 31"
  using assms by presburger+

lemma find_fit_from_Some:
  "find_fit_from R st l = b \<Longrightarrow> b \<noteq> NULL \<Longrightarrow> b \<in> set l \<and> R \<le> mm_block_size st b"
  by (induction l) (auto split: if_splits)

lemma extend_heap_fail:
  "sz < 0 \<or> mem_max_addr st < mem_brk st + sz \<Longrightarrow> extend_heap sz st = (NULL, st)"
  by (auto simp: extend_heap_def mem_sbrk_def)

lemma extend_heap_eq:
  assumes "0 < sz" "mem_brk st + sz \<le> mem_max_addr st" "0 < mem_brk st" "8 dvd sz"
  shows "extend_heap sz st =
    free_coalesce (mem_brk st - 4)
      (st\<lparr>mem_brk := mem_brk st + sz,
          mem := (mem st)(mem_brk st + sz - 4 := pack 0 True,
                          mem_brk st - 4 := pack sz False,
                          mem_brk st + sz - 8 := pack sz False)\<rparr>)"
proof -
  have "mem_sbrk sz st = (mem_brk st, st\<lparr>mem_brk := mem_brk st + sz\<rparr>)"
    using assms by (simp add: mem_sbrk_def)
  moreover have "8 \<le> sz" using assms by (simp add: ge8)
  ultimately show ?thesis
    using assms
    apply (simp add: extend_heap_def Let_def read_over_write)
    apply (rule arg_cong [where f = "free_coalesce (mem_brk st - 4)"])
    apply (auto simp: mm_block_set_header_def mm_block_set_footer_def fun_eq_iff)
    done
qed

lemma extend_heap_heap_ok:
  assumes ok: "heap_ok st bs" and sz: "0 < sz" "8 dvd sz"
  shows "\<exists>bs'. heap_ok (snd (extend_heap sz st)) bs' \<and>
           addrs True (heap_blocks st) bs' = addrs True (heap_blocks st) bs \<and>
           heap_blocks (snd (extend_heap sz st)) = heap_blocks st \<and>
           mem_max_addr (snd (extend_heap sz st)) = mem_max_addr st"
proof (cases "mem_max_addr st < mem_brk st + sz")
  case True
  then show ?thesis using ok by (auto simp: extend_heap_fail)
next
  case False
  let ?h = "heap_blocks st" and ?m = "mem st"
  let ?e = "?h + total bs"
  have lay: "blocks_ok st bs" and fl: "free_list_ok st bs"
    using ok by (simp_all add: heap_ok_def)
  have ch: "chain ?m ?h bs" and brk: "mem_brk st = ?e + 4" and h0: "0 < ?h" and ne: "bs \<noteq> []"
    using lay by (simp_all add: blocks_ok_def)
  have t: "0 \<le> total bs" using ch by (rule chain_total_nonneg)
  have s8: "8 \<le> sz" using sz by (simp add: ge8)
  let ?st3 = "st\<lparr>mem_brk := mem_brk st + sz,
          mem := ?m(mem_brk st + sz - 4 := pack 0 True,
                    mem_brk st - 4 := pack sz False,
                    mem_brk st + sz - 8 := pack sz False)\<rparr>"
  have eq: "extend_heap sz st = free_coalesce ?e ?st3"
    using extend_heap_eq [of sz st] False sz h0 t brk by simp
  have "chain (mem ?st3) ?h bs"
    using ch by (rule chain_cong) (use s8 brk in auto)
  then have lay3: "blocks_ok ?st3 (bs @ (sz, False) # [])"
    using lay False sz s8 brk ne by (simp add: blocks_ok_def chain_append total_append)
  have "addrs False ?h (bs @ [(sz, True)]) = addrs False ?h bs"
    by (simp add: addrs_append)
  then have fl3: "free_list_ok ?st3 (bs @ (sz, True) # [])"
    using fl by (simp add: free_list_ok_def)
  have "?e \<notin> addrs True ?h bs"
    using addrs_range [OF ch, of ?e True] by auto
  then have "addrs True ?h (bs @ [(sz, True)]) - {?e} = addrs True ?h bs"
    by (auto simp: addrs_append)
  moreover have e: "?e = heap_blocks ?st3 + total bs" by simp
  note fc = free_coalesce_heap_ok [OF lay3 fl3 ne e]
  ultimately show ?thesis
    unfolding eq using fc(1,4,5,7) by (intro exI [of _ "coalesce_blocks bs sz []"]) simp
qed

lemma malloc_loop_inv:
  assumes "malloc_loop R temp st = Some y"
  shows "0 < R \<longrightarrow> 8 dvd R \<longrightarrow> loop_inv h A M st \<longrightarrow> temp = find_fit R st \<longrightarrow>
           loop_inv h A M (snd y) \<and> fst y = find_fit R (snd y) \<and> fst y \<noteq> NULL"
  using assms
proof (induction R temp st y rule: malloc_loop.raw_induct [rotated, consumes 1])
  case (1 loop R temp st y)
  show ?case
  proof (intro impI)
    assume R: "0 < R" "8 dvd R" and inv: "loop_inv h A M st" and temp: "temp = find_fit R st"
    show "loop_inv h A M (snd y) \<and> fst y = find_fit R (snd y) \<and> fst y \<noteq> NULL"
    proof (cases "temp = NULL")
      case False
      then show ?thesis using 1(2) inv temp by auto
    next
      case True
      let ?t = "if 512 < R then R else 512"
      let ?st = "snd (extend_heap ?t st)"
      have call: "loop R (find_fit R ?st) ?st = Some y"
        using 1(2) True by (simp add: Let_def)
      have "0 < ?t" "8 dvd ?t" using R by auto
      then have "loop_inv h A M ?st"
        using inv extend_heap_heap_ok [of st _ ?t] unfolding loop_inv_def by fastforce
      then show ?thesis
        using 1(1) [OF call] R by simp
    qed
  qed
qed

lemma find_fit_free_block:
  assumes ok: "heap_ok st bs" and f: "find_fit R st = b" "b \<noteq> NULL"
  shows "\<exists>xs S ys. bs = xs @ (S, False) # ys \<and> b = heap_blocks st + total xs \<and> R \<le> S"
proof -
  have "b \<in> set (mm_list st)" and R: "R \<le> mm_block_size st b"
    using find_fit_from_Some [of R st "mm_list st" b] f by (simp_all add: find_fit_def)
  then have "b \<in> addrs False (heap_blocks st) bs"
    using ok by (simp add: heap_ok_def free_list_ok_def)
  then obtain xs S ys where bs: "bs = xs @ (S, False) # ys" "b = heap_blocks st + total xs"
    using addrs_split by blast
  have "chain (mem st) (heap_blocks st) bs"
    using ok by (simp add: heap_ok_def blocks_ok_def)
  then have "mm_block_size st b = S"
    by (simp add: bs chain_append mm_block_size_pack)
  then show ?thesis using bs R by blast
qed

lemma mm_malloc_heap_ok:
  assumes ok: "heap_ok st bs" and n: "n \<noteq> 0" "uint n + 15 < 2 ^ 31"
    and res: "mm_malloc n st = Some (p, st')"
  shows "\<exists>bs'. heap_ok st' bs' \<and>
           addrs True (heap_blocks st) bs' = insert (p - 4) (addrs True (heap_blocks st) bs) \<and>
           p - 4 \<notin> addrs True (heap_blocks st) bs \<and>
           heap_blocks st < p - 4 \<and> p mod 8 = 0 \<and>
           (uint n + 15) div 8 * 8 \<le> mm_block_size st' (p - 4) \<and>
           mm_block_allocated st' (p - 4) \<and>
           heap_blocks st' = heap_blocks st \<and> mem_max_addr st' = mem_max_addr st"
proof -
  let ?h = "heap_blocks st"
  let ?R = "(uint n + 15) div 8 * 8"
  have n0: "0 < uint n"
    using n(1) by (simp add: word_neq_0_conv word_less_def)
  have req: "required_block_size (to_int32 (uint n)) = ?R"
    using n0 n(2) by (intro required_block_size_eq) simp_all
  have R: "0 < ?R" "8 dvd ?R"
    using required_bounds [OF n0 n(2)] by simp_all
  obtain temp st1 where loop: "malloc_loop ?R (find_fit ?R st) st = Some (temp, st1)"
    and pl: "place temp ?R st1 = (p - 4, st')"
    using res n(1) by (auto simp: mm_malloc_def req Let_def split: option.splits prod.splits)
  have "loop_inv ?h (addrs True ?h bs) (mem_max_addr st) st"
    using ok by (auto simp: loop_inv_def)
  from malloc_loop_inv [OF loop, rule_format, OF R this]
  have inv1: "loop_inv ?h (addrs True ?h bs) (mem_max_addr st) st1"
    and temp: "find_fit ?R st1 = temp" "temp \<noteq> NULL"
    by simp_all
  then obtain bs1 where ok1: "heap_ok st1 bs1" and A1: "addrs True ?h bs1 = addrs True ?h bs"
    and h1: "heap_blocks st1 = ?h" "mem_max_addr st1 = mem_max_addr st"
    by (auto simp: loop_inv_def)
  obtain xs S ys where bs1: "bs1 = xs @ (S, False) # ys" "temp = ?h + total xs" "?R \<le> S"
    using find_fit_free_block [OF ok1 temp] h1 by auto
  have al: "(p - 4) mod 8 = 4 \<Longrightarrow> p mod 8 = 0"
    by presburger
  let ?r = "place_addr temp S ?R" and ?bs' = "xs @ place_split S ?R @ ys"
  from place_heap_ok [of st1 xs S ys temp ?R] ok1 bs1 R h1
  obtain st2 where "place temp ?R st1 = (?r, st2) \<and>
           heap_ok st2 ?bs' \<and>
           mm_list st2 = place_list temp S ?R (mm_list st1) \<and>
           total ?bs' = total (xs @ (S, False) # ys) \<and>
           addrs True ?h ?bs' = insert ?r (addrs True ?h (xs @ (S, False) # ys)) \<and>
           ?r \<notin> addrs True ?h (xs @ (S, False) # ys) \<and>
           ?h < ?r \<and> ?r mod 8 = 4 \<and>
           ?R \<le> mm_block_size st2 ?r \<and> mm_block_allocated st2 ?r \<and>
           heap_blocks st2 = ?h \<and> mem_brk st2 = mem_brk st1 \<and>
           mem_max_addr st2 = mem_max_addr st1"
    by auto
  then have r: "place temp ?R st1 = (?r, st2)" "heap_ok st2 ?bs'"
    "addrs True ?h ?bs' = insert ?r (addrs True ?h (xs @ (S, False) # ys))"
    "?r \<notin> addrs True ?h (xs @ (S, False) # ys)" "?h < ?r" "?r mod 8 = 4"
    "?R \<le> mm_block_size st2 ?r" "mm_block_allocated st2 ?r"
    "heap_blocks st2 = ?h" "mem_max_addr st2 = mem_max_addr st1"
    by simp_all
  have e: "p - 4 = ?r" "st' = st2" using pl r(1) by simp_all
  show ?thesis
    unfolding e using r(2-10) al [unfolded e(1), OF r(6)] A1 bs1(1) h1
    by (intro exI [of _ ?bs']) simp
qed

lemma block_facts:
  assumes ok: "heap_ok st bs" and bs: "bs = xs @ (s, f) # ys" and b: "b = heap_blocks st + total xs"
  shows "mm_block_size st b = s" "mm_block_allocated st b = f" "8 \<le> s" "8 dvd s"
    "s + total ys < 2 ^ 31" "0 \<le> total xs" "0 \<le> total ys"
    "ys = [] \<Longrightarrow> mm_block_allocated st (b + s)"
    "\<And>sn aln ys'. ys = (sn, aln) # ys' \<Longrightarrow>
       mm_block_size st (b + s) = sn \<and> mm_block_allocated st (b + s) = aln \<and> 8 \<le> sn \<and> 8 dvd sn
       \<and> 0 \<le> total ys'"
proof -
  let ?h = "heap_blocks st" and ?m = "mem st"
  have lay: "blocks_ok st bs" using ok by (simp add: heap_ok_def)
  then have ch: "chain ?m ?h xs" "0 < s" "8 dvd s" "?m b = pack s f" "chain ?m (b + s) ys"
    and epi: "?m (b + s + total ys) = pack 0 True"
    and brk: "mem_brk st = b + s + total ys + 4" "mem_brk st \<le> mem_max_addr st"
      "mem_max_addr st - ?h < 2 ^ 31"
    by (simp_all add: blocks_ok_def bs chain_append total_append b add.assoc)
  show "mm_block_size st b = s" "mm_block_allocated st b = f"
    using ch by (simp_all add: mm_block_size_pack mm_block_allocated_pack)
  show "8 \<le> s" "8 dvd s" using ch by (simp_all add: ge8)
  show t: "0 \<le> total xs" "0 \<le> total ys"
    using ch chain_total_nonneg by blast+
  show "s + total ys < 2 ^ 31" using brk t by (simp add: b)
  show "mm_block_allocated st (b + s)" if "ys = []"
    using epi that by (simp add: mm_block_allocated_pack)
  show "mm_block_size st (b + s) = sn \<and> mm_block_allocated st (b + s) = aln \<and> 8 \<le> sn \<and> 8 dvd sn
        \<and> 0 \<le> total ys'"
    if "ys = (sn, aln) # ys'" for sn aln ys'
    using ch(5) that by (auto simp: mm_block_size_pack mm_block_allocated_pack ge8 dest: chain_total_nonneg)
qed

lemma mm_free_heap_ok:
  assumes ok: "heap_ok st bs" and live: "p - 4 \<in> addrs True (heap_blocks st) bs"
    and np: "p - 4 \<noteq> heap_blocks st"
  shows "\<exists>bs'. heap_ok (mm_free p st) bs' \<and>
           addrs True (heap_blocks st) bs' = addrs True (heap_blocks st) bs - {p - 4} \<and>
           heap_blocks (mm_free p st) = heap_blocks st \<and>
           mem_brk (mm_free p st) = mem_brk st \<and>
           mem_max_addr (mm_free p st) = mem_max_addr st"
proof -
  obtain xs s ys where bs: "bs = xs @ (s, True) # ys" "p - 4 = heap_blocks st + total xs"
    using addrs_split [OF live] by blast
  have xs: "xs \<noteq> []" using np bs by auto
  have "0 < heap_blocks st" using ok by (simp add: heap_ok_def blocks_ok_def)
  then have "p \<noteq> NULL"
    using block_facts(6) [OF ok bs] bs(2) by (auto simp: NULL_def)
  then have eq: "mm_free p st = snd (free_coalesce (p - 4) st)"
    by (simp add: mm_free_def)
  have lay: "blocks_ok st (xs @ (s, True) # ys)" and fl: "free_list_ok st (xs @ (s, True) # ys)"
    using ok bs by (simp_all add: heap_ok_def)
  note fc = free_coalesce_heap_ok [OF lay fl xs bs(2)]
  show ?thesis
    unfolding eq using fc(1,4,5,6,7) bs(1) by (intro exI [of _ "coalesce_blocks xs s ys"]) simp
qed

lemma payload_write_heap_ok:
  assumes ok: "heap_ok st (xs @ (S, True) # ys)" and xs: "xs \<noteq> []"
    and b: "b = heap_blocks st + total xs"
    and frame: "\<And>x. x < b + 4 \<or> b + S - 4 \<le> x \<Longrightarrow> m' x = mem st x"
  shows "heap_ok (st\<lparr>mem := m'\<rparr>) (xs @ (S, True) # ys)"
proof -
  have S: "8 \<le> S" and m: "mem st b = pack S True" "mem st (b + S - 4) = pack S True" "8 dvd S"
    using ok by (simp_all add: heap_ok_def blocks_ok_def chain_append b ge8)
  have "heap_ok (st\<lparr>mem := m', mm_list := mm_list st\<rparr>) (xs @ [(S, True)] @ ys)"
  proof (rule heap_ok_replace [where ?mid0.0 = "[(S, True)]" and mid = "[(S, True)]"])
    show "blocks_ok st (xs @ [(S, True)] @ ys)" using ok by (simp add: heap_ok_def)
    show "free_list_ok st (xs @ [(S, True)] @ ys)" using ok by (simp add: heap_ok_def)
    show "chain m' b [(S, True)]" using S m by (simp add: frame)
    show "\<And>x. x < b \<or> b + total [(S, True)] \<le> x \<Longrightarrow> m' x = mem st x"
      by (auto simp: frame)
    show "distinct (mm_list st)" using ok by (simp add: heap_ok_def free_list_ok_def)
  qed (use xs b S in simp_all)
  then show ?thesis by simp
qed

lemma uint_size_t: "0 \<le> x \<Longrightarrow> x < 2 ^ 31 \<Longrightarrow> uint (word_of_int x :: size_t) = x"
  by (simp add: uint_word_of_int)

lemma mm_realloc_fits:
  assumes ok: "heap_ok st bs" and live: "p - 4 \<in> addrs True (heap_blocks st) bs"
    and n: "n \<noteq> 0" "uint n \<le> mm_block_size st (p - 4) - 8"
  shows "mm_realloc p n st = Some (p, st)"
proof -
  obtain xs s ys where bs: "bs = xs @ (s, True) # ys" "p - 4 = heap_blocks st + total xs"
    using addrs_split [OF live] by blast
  note f = block_facts [OF ok bs]
  have "0 < heap_blocks st" using ok by (simp add: heap_ok_def blocks_ok_def)
  then have p: "p \<noteq> NULL" using f(6) bs(2) by (auto simp: NULL_def)
  have "to_int32 (s - 8) = s - 8" using f by (intro to_int32_id) simp_all
  moreover have "uint (word_of_int (s - 8) :: size_t) = s - 8"
    using f by (intro uint_size_t) simp_all
  ultimately have "n \<le> word_of_int (to_int32 (mm_block_size st (p - 4) - 8))"
    using n(2) f(1) by (simp add: word_le_def del: of_int_diff of_int_add)
  then show ?thesis
    using p n(1) by (simp add: mm_realloc_def Let_def)
qed

lemma mm_realloc_absorb:
  assumes ok: "heap_ok st (xs @ (s, True) # (sn, False) # ys)" and xs: "xs \<noteq> []"
    and b: "p - 4 = heap_blocks st + total xs"
    and n: "s - 8 < uint n" "uint n \<le> s + sn - 8"
  shows "mm_realloc p n st =
           Some (p, st\<lparr>mem := set_tags (p - 4) (s + sn) True (mem st),
                        mm_list := remove1 (p - 4 + s) (mm_list st)\<rparr>)"
    and "heap_ok (st\<lparr>mem := set_tags (p - 4) (s + sn) True (mem st),
                       mm_list := remove1 (p - 4 + s) (mm_list st)\<rparr>)
           (xs @ (s + sn, True) # ys)"
    and "addrs True (heap_blocks st) (xs @ (s + sn, True) # ys) =
         addrs True (heap_blocks st) (xs @ (s, True) # (sn, False) # ys)"
proof -
  let ?b = "p - 4" and ?h = "heap_blocks st" and ?l = "mm_list st"
  note f = block_facts [OF ok refl b]
  have nx: "mm_block_size st (?b + s) = sn" "\<not> mm_block_allocated st (?b + s)" "8 \<le> sn"
    "0 \<le> total ys"
    using f(9) [of sn False ys] by simp_all
  have "0 < ?h" using ok by (simp add: heap_ok_def blocks_ok_def)
  then have p: "p \<noteq> NULL" using f(6) b by (auto simp: NULL_def)
  have n0: "n \<noteq> 0" using n f(3) by auto
  have ssn: "s + sn < 2 ^ 31" using f(5) nx by simp
  have c1: "to_int32 (s - 8) = s - 8" "to_int32 (s + sn) = s + sn"
    using f nx ssn by (simp_all add: to_int32_id)
  have c2: "uint (word_of_int (s - 8) :: size_t) = s - 8"
    "uint (word_of_int (s + sn) :: size_t) = s + sn"
    using f nx ssn by (simp_all add: uint_size_t del: of_int_diff of_int_add)
  have "uint (8 :: size_t) \<le> uint (word_of_int (s + sn) :: size_t)"
    using f nx by (simp add: c2 del: of_int_diff of_int_add)
  then have c3: "uint ((word_of_int (s + sn) :: size_t) - 8) = s + sn - 8"
    by (simp add: uint_sub_lem [THEN iffD1] c2 del: of_int_diff of_int_add)
  have 1: "\<not> n \<le> word_of_int (to_int32 (mm_block_size st ?b - 8))"
    using n(1) by (simp add: word_le_def f(1) c1 c2 del: of_int_diff of_int_add)
  have 2: "n \<le> word_of_int (to_int32 (mm_block_size st ?b + mm_block_size st (mm_block_next st ?b))) - 8"
    using n(2) by (simp add: word_le_def f(1) nx c1 c2 c3 mm_block_next_def del: of_int_diff of_int_add)
  show "mm_realloc p n st =
           Some (p, st\<lparr>mem := set_tags ?b (s + sn) True (mem st),
                        mm_list := remove1 (?b + s) ?l\<rparr>)"
    using p n0 1 2 nx f(1)
    by (simp add: mm_realloc_def Let_def mm_block_next_def c1 c2 mm_list_remove_def
        mm_block_set_header_def mm_block_set_footer_def set_tags_def del: of_int_diff of_int_add)
  have "heap_ok (st\<lparr>mem := set_tags ?b (s + sn) True (mem st),
                       mm_list := remove1 (?b + s) ?l\<rparr>) (xs @ [(s + sn, True)] @ ys)"
  proof (rule heap_ok_replace [where ?mid0.0 = "[(s, True), (sn, False)]"
                                 and mid = "[(s, True), (sn, False)]"])
    show "blocks_ok st (xs @ [(s, True), (sn, False)] @ ys)" using ok by (simp add: heap_ok_def)
    show "free_list_ok st (xs @ [(s, True), (sn, False)] @ ys)" using ok by (simp add: heap_ok_def)
    show "chain (set_tags ?b (s + sn) True (mem st)) ?b [(s + sn, True)]"
      using f nx by (simp add: set_tags_apply)
    show "\<And>x. x < ?b \<or> ?b + total [(s, True), (sn, False)] \<le> x \<Longrightarrow>
            set_tags ?b (s + sn) True (mem st) x = mem st x"
      using f nx by (auto simp: set_tags_apply)
    show "distinct (remove1 (?b + s) ?l)" using ok by (simp add: heap_ok_def free_list_ok_def)
    show "set (remove1 (?b + s) ?l) =
            set ?l - addrs False ?b [(s, True), (sn, False)] \<union> addrs False ?b [(s + sn, True)]"
      using ok by (auto simp: heap_ok_def free_list_ok_def)
  qed (use xs b f nx in simp_all)
  then show "heap_ok (st\<lparr>mem := set_tags ?b (s + sn) True (mem st),
                       mm_list := remove1 (?b + s) ?l\<rparr>) (xs @ (s + sn, True) # ys)"
    by simp
  have "\<forall>p\<in>set (xs @ [(s, True), (sn, False)] @ ys). 0 < fst p"
    using ok chain_pos [of "mem st" ?h "xs @ (s, True) # (sn, False) # ys"]
    by (simp add: heap_ok_def blocks_ok_def)
  from addrs_replace [OF this, of "[(s + sn, True)]" True ?h]
  show "addrs True ?h (xs @ (s + sn, True) # ys) = addrs True ?h (xs @ (s, True) # (sn, False) # ys)"
    by (auto simp: b [symmetric] addrs_append)
qed

lemma memcpy_heap_ok:
  assumes ok: "heap_ok st (xs @ (S, True) # ys)" and xs: "xs \<noteq> []"
    and b: "q - 4 = heap_blocks st + total xs" and k: "k \<le> S - 8"
  shows "heap_ok (memcpy q p k st) (xs @ (S, True) # ys)"
  unfolding memcpy_def
  using ok xs b by (rule payload_write_heap_ok) (use k in auto)

lemma mm_realloc_move:
  assumes ok: "heap_ok st bs" and live: "p - 4 \<in> addrs True (heap_blocks st) bs"
    and np: "p - 4 \<noteq> heap_blocks st"
    and s: "s = mm_block_size st (p - 4)"
    and n: "s - 8 < uint n" "uint n + 15 < 2 ^ 31"
    and na: "mm_block_allocated st (p - 4 + s) \<or> s + mm_block_size st (p - 4 + s) - 8 < uint n"
    and res: "mm_realloc p n st = Some (q, st')"
  shows "\<exists>bs'. heap_ok st' bs' \<and> heap_blocks st' = heap_blocks st \<and>
           addrs True (heap_blocks st) bs' =
             insert (q - 4) (addrs True (heap_blocks st) bs - {p - 4}) \<and>
           heap_blocks st < q - 4"
proof -
  let ?h = "heap_blocks st" and ?b = "p - 4"
  obtain xs s' ys where bs: "bs = xs @ (s', True) # ys" "?b = ?h + total xs"
    using addrs_split [OF live] by blast
  note f = block_facts [OF ok bs]
  have ss: "s' = s" using f(1) s by simp
  have "0 < ?h" using ok by (simp add: heap_ok_def blocks_ok_def)
  then have p: "p \<noteq> NULL" using f(6) bs(2) by (auto simp: NULL_def)
  have n0: "n \<noteq> 0" using n f(3) ss by auto
  have c1: "to_int32 (s - 8) = s - 8"
    using f ss by (simp add: to_int32_id)
  have c2: "uint (word_of_int (s - 8) :: size_t) = s - 8"
    using f ss by (simp add: uint_size_t del: of_int_diff of_int_add)
  have 1: "\<not> n \<le> word_of_int (to_int32 (mm_block_size st ?b - 8))"
    "\<not> word_of_int (to_int32 (mm_block_size st ?b - 8)) > n"
    using n(1) by (simp_all add: word_le_def word_less_def s [symmetric] c1 c2 del: of_int_diff of_int_add)
  have 2: "\<not> (\<not> mm_block_allocated st (mm_block_next st ?b) \<and>
      n \<le> word_of_int (to_int32 (mm_block_size st ?b + mm_block_size st (mm_block_next st ?b))) - 8)"
  proof (cases "mm_block_allocated st (?b + s)")
    case True
    then show ?thesis by (simp add: mm_block_next_def s)
  next
    case False
    then obtain sn ys' where ys: "ys = (sn, False) # ys'"
      using f(8,9) ss by (cases ys) auto
    have nx: "mm_block_size st (?b + s) = sn" "8 \<le> sn" "0 \<le> total ys'"
      using f(9) [OF ys] ss by simp_all
    have ssn: "s + sn < 2 ^ 31" using f(5) nx ys ss by simp
    have d1: "to_int32 (s + sn) = s + sn"
      using f nx ssn ss by (simp add: to_int32_id)
    have d2: "uint (word_of_int (s + sn) :: size_t) = s + sn"
      using f nx ssn ss by (simp add: uint_size_t del: of_int_diff of_int_add)
    have "uint (8 :: size_t) \<le> uint (word_of_int (s + sn) :: size_t)"
      using f nx ss by (simp add: d2 del: of_int_diff of_int_add)
    then have d3: "uint ((word_of_int (s + sn) :: size_t) - 8) = s + sn - 8"
      by (simp add: uint_sub_lem [THEN iffD1] d2 del: of_int_diff of_int_add)
    show ?thesis
      using na False nx
      by (simp add: mm_block_next_def s [symmetric] d1 d3 word_le_def del: of_int_diff of_int_add)
  qed
  have tempp: "uint (word_of_int (to_int32 (uint (word_of_int (to_int32 (mm_block_size st ?b - 8)) :: size_t))) :: size_t) = s - 8"
    by (simp add: s [symmetric] c1 c2 del: of_int_diff of_int_add)
  obtain st1 where m: "mm_malloc n st = Some (q, st1)"
    and st': "st' = (if q = NULL then st1 else mm_free p (memcpy q p (s - 8) st1))"
    using res p n0 1 2 tempp
    by (auto simp add: mm_realloc_def Let_def split: option.splits if_splits
        simp del: of_int_diff of_int_add)
  from mm_malloc_heap_ok [OF ok n0 n(2) m]
  obtain bs1 where ok1: "heap_ok st1 bs1"
    and A1: "addrs True ?h bs1 = insert (q - 4) (addrs True ?h bs)"
    and fresh: "q - 4 \<notin> addrs True ?h bs" and hq: "?h < q - 4"
    and cap: "(uint n + 15) div 8 * 8 \<le> mm_block_size st1 (q - 4)"
    and h1: "heap_blocks st1 = ?h"
    by blast
  have q: "q \<noteq> NULL" using hq \<open>0 < ?h\<close> by (simp add: NULL_def)
  have "q - 4 \<in> addrs True (heap_blocks st1) bs1" using A1 h1 by simp
  then obtain xs1 S ys1 where bs1: "bs1 = xs1 @ (S, True) # ys1" "q - 4 = heap_blocks st1 + total xs1"
    using addrs_split by blast
  have xs1: "xs1 \<noteq> []" using bs1 hq h1 by auto
  have S: "mm_block_size st1 (q - 4) = S"
    using block_facts(1) [OF ok1 bs1] .
  have "uint n + 8 \<le> (uint n + 15) div 8 * 8" by presburger
  then have k: "s - 8 \<le> S - 8" using cap S n(1) by simp
  have ok2: "heap_ok (memcpy q p (s - 8) st1) bs1"
    using memcpy_heap_ok [of st1 xs1 S ys1 q "s - 8" p] ok1 bs1 xs1 k by simp
  have f2: "heap_blocks (memcpy q p (s - 8) st1) = ?h"
    by (simp add: memcpy_def h1)
  have live2: "p - 4 \<in> addrs True (heap_blocks (memcpy q p (s - 8) st1)) bs1"
    using live A1 by (simp add: f2)
  from mm_free_heap_ok [OF ok2 live2] np f2
  obtain bs2 where "heap_ok (mm_free p (memcpy q p (s - 8) st1)) bs2"
    "addrs True ?h bs2 = addrs True ?h bs1 - {p - 4}"
    "heap_blocks (mm_free p (memcpy q p (s - 8) st1)) = ?h"
    by auto
  moreover have "addrs True ?h bs1 - {p - 4} = insert (q - 4) (addrs True ?h bs - {p - 4})"
    using A1 fresh live by auto
  ultimately show ?thesis
    using q hq st' by auto
qed

lemma mm_realloc_heap_ok:
  assumes ok: "heap_ok st bs"
    and p: "p = NULL \<or> (p - 4 \<in> addrs True (heap_blocks st) bs \<and> p - 4 \<noteq> heap_blocks st)"
    and n: "n = 0 \<or> uint n + 15 < 2 ^ 31"
    and res: "mm_realloc p n st = Some (q, st')"
  shows "\<exists>bs'. heap_ok st' bs' \<and> heap_blocks st' = heap_blocks st \<and>
           addrs True (heap_blocks st) bs' =
             (if n = 0 then addrs True (heap_blocks st) bs - {p - 4}
              else insert (q - 4) (addrs True (heap_blocks st) bs - {p - 4})) \<and>
           (n \<noteq> 0 \<longrightarrow> heap_blocks st < q - 4)"
proof -
  let ?h = "heap_blocks st" and ?A = "addrs True (heap_blocks st) bs"
  have h0: "0 < ?h" and ch: "chain (mem st) ?h bs"
    using ok by (simp_all add: heap_ok_def blocks_ok_def)
  have nn: "NULL - 4 \<notin> ?A"
    using addrs_range [OF ch, of "NULL - 4" True] h0 by (auto simp: NULL_def)
  show ?thesis
  proof (cases "p = NULL")
    case True
    show ?thesis
    proof (cases "n = 0")
      case True
      then show ?thesis using \<open>p = NULL\<close> res ok nn
        by (auto simp: mm_realloc_def mm_malloc_def)
    next
      case False
      then have "mm_malloc n st = Some (q, st')" "uint n + 15 < 2 ^ 31"
        using \<open>p = NULL\<close> res n by (simp_all add: mm_realloc_def)
      from mm_malloc_heap_ok [OF ok False this(2,1)] show ?thesis
        using False True nn by auto
    qed
  next
    case False
    then have live: "p - 4 \<in> ?A" "p - 4 \<noteq> ?h" using p by simp_all
    show ?thesis
    proof (cases "n = 0")
      case True
      then have "st' = mm_free p st"
        using False res by (simp add: mm_realloc_def)
      then show ?thesis
        using mm_free_heap_ok [OF ok live] True by auto
    next
      case n0: False
      then have n15: "uint n + 15 < 2 ^ 31" using n by simp
      define s where "s = mm_block_size st (p - 4)"
      show ?thesis
      proof (cases "uint n \<le> s - 8")
        case True
        then have "mm_realloc p n st = Some (p, st)"
          using mm_realloc_fits [OF ok live(1) n0] by (simp add: s_def)
        then have "q = p" "st' = st" using res by simp_all
        then show ?thesis
          using ok live n0 addrs_range [OF ch, of "p - 4" True] by auto
      next
        case nf: False
        obtain xs s' ys where bs: "bs = xs @ (s', True) # ys" "p - 4 = ?h + total xs"
          using addrs_split [OF live(1)] by blast
        note f = block_facts [OF ok bs]
        have ss: "s' = s" using f(1) by (simp add: s_def)
        have xs: "xs \<noteq> []" using live(2) bs by auto
        show ?thesis
        proof (cases "\<not> mm_block_allocated st (p - 4 + s) \<and> uint n \<le> s + mm_block_size st (p - 4 + s) - 8")
          case True
          then obtain sn ys' where ys: "ys = (sn, False) # ys'"
            using f(8,9) ss by (cases ys) auto
          have nx: "mm_block_size st (p - 4 + s) = sn"
            using f(9) [OF ys] ss by simp
          note ab = mm_realloc_absorb [of st xs s sn ys' p n]
          have pre: "heap_ok st (xs @ (s, True) # (sn, False) # ys')"
            using ok bs ys ss by simp
          have n2: "s - 8 < uint n" "uint n \<le> s + sn - 8"
            using nf True nx by simp_all
          have "q = p" "heap_ok st' (xs @ (s + sn, True) # ys')" "heap_blocks st' = ?h"
            "addrs True ?h (xs @ (s + sn, True) # ys') = ?A"
            using ab [OF pre xs bs(2) n2] res bs ys ss by auto
          then show ?thesis
            using live n0 addrs_range [OF ch, of "p - 4" True]
            by (intro exI [of _ "xs @ (s + sn, True) # ys'"]) auto
        next
          case False
          then have na: "mm_block_allocated st (p - 4 + s) \<or> s + mm_block_size st (p - 4 + s) - 8 < uint n"
            by auto
          from mm_realloc_move [OF ok live s_def _ n15 na res] nf n0
          show ?thesis by auto
        qed
      qed
    qed
  qed
qed

lemma mm_init_eq:
  assumes "0 < mem_brk st0" "mem_brk st0 + 16 \<le> mem_max_addr st0"
  shows "mm_init st0 =
     (0, snd (extend_heap 64
        (st0\<lparr>mm_list := [], mem_brk := mem_brk st0 + 16,
             mem := (mem st0)(mem_brk st0 := pack 0 False, mem_brk st0 + 4 := pack 8 True,
                              mem_brk st0 + 8 := pack 8 True, mem_brk st0 + 12 := pack 0 True),
             heap_blocks := mem_brk st0 + 4\<rparr>)))"
proof -
  have "mem_brk st0 + 4 + 8 - 4 = mem_brk st0 + 8" by simp
  then show ?thesis
    using assms
    by (simp add: mm_init_def mm_list_init_def mem_sbrk_def Let_def mm_block_set_header_def
        mm_block_set_footer_def del: add_diff_cancel_right' diff_add_cancel)
      (simp add: add.commute)
qed

lemma mm_init_fail:
  "mem_max_addr st0 < mem_brk st0 + 16 \<Longrightarrow> mm_init st0 = (- 1, st0\<lparr>mm_list := []\<rparr>)"
  by (simp add: mm_init_def mm_list_init_def mem_sbrk_def Let_def)

lemma mm_init_heap_ok:
  assumes st0: "store_ok st0" and res: "mm_init st0 = (0, st)"
  shows "\<exists>bs. heap_ok st bs \<and> addrs True (heap_blocks st) bs = {heap_blocks st}"
proof -
  let ?B = "mem_brk st0"
  have B: "0 < ?B" "?B mod 8 = 0" "mem_max_addr st0 - ?B < 2 ^ 31"
    using st0 by (simp_all add: store_ok_def)
  have cap: "?B + 16 \<le> mem_max_addr st0"
    using res mm_init_fail [of st0] by (cases "mem_max_addr st0 < ?B + 16") auto
  let ?s1 = "st0\<lparr>mm_list := [], mem_brk := ?B + 16,
             mem := (mem st0)(?B := pack 0 False, ?B + 4 := pack 8 True,
                              ?B + 8 := pack 8 True, ?B + 12 := pack 0 True),
             heap_blocks := ?B + 4\<rparr>"
  have st: "st = snd (extend_heap 64 ?s1)"
    using res mm_init_eq [OF B(1) cap] by simp
  have "(?B + 4) mod 8 = 4" using B(2) by presburger
  then have "heap_ok ?s1 [(8, True)]"
    using B cap by (simp add: heap_ok_def blocks_ok_def free_list_ok_def)
  from extend_heap_heap_ok [OF this, of 64] show ?thesis
    by (auto simp: st)
qed

lemma write_heap_ok:
  assumes ok: "heap_ok st bs" and live: "p - 4 \<in> addrs True (heap_blocks st) bs"
    and np: "p - 4 \<noteq> heap_blocks st"
    and a: "p \<le> a" "a < p + (mm_block_size st (p - 4) - 8)"
  shows "heap_ok (st\<lparr>mem := (mem st)(a := v)\<rparr>) bs"
proof -
  obtain xs s ys where bs: "bs = xs @ (s, True) # ys" "p - 4 = heap_blocks st + total xs"
    using addrs_split [OF live] by blast
  have xs: "xs \<noteq> []" using np bs by auto
  have s: "mm_block_size st (p - 4) = s" using block_facts(1) [OF ok bs] .
  show ?thesis
    unfolding bs(1)
    by (rule payload_write_heap_ok [OF ok [unfolded bs(1)] xs bs(2)]) (use a s in auto)
qed

lemma reach_heap_ok:
  "reach small_request st L \<Longrightarrow>
     \<exists>bs. heap_ok st bs \<and>
       (\<forall>p\<in>L. p - 4 \<in> addrs True (heap_blocks st) bs \<and> p - 4 \<noteq> heap_blocks st)"
proof (induction rule: reach.induct)
  case (init st0 st)
  then show ?case using mm_init_heap_ok by fastforce
next
  case (malloc st L n p st')
  then obtain bs where ok: "heap_ok st bs"
    and L: "\<forall>p\<in>L. p - 4 \<in> addrs True (heap_blocks st) bs \<and> p - 4 \<noteq> heap_blocks st"
    by blast
  show ?case
  proof (cases "n = 0")
    case True
    then have "st' = st" using malloc.hyps by (simp add: mm_malloc_def)
    then show ?thesis using ok L True by auto
  next
    case False
    have "uint n + 15 < 2 ^ 31" using malloc.hyps by (simp add: small_request_def)
    from mm_malloc_heap_ok [OF ok False this malloc.hyps(3)] L False
    show ?thesis by fastforce
  qed
next
  case (free st L p)
  then obtain bs where ok: "heap_ok st bs"
    and L: "\<forall>p\<in>L. p - 4 \<in> addrs True (heap_blocks st) bs \<and> p - 4 \<noteq> heap_blocks st"
    by blast
  show ?case
  proof (cases "p \<in> L")
    case True
    then have "p - 4 \<in> addrs True (heap_blocks st) bs" "p - 4 \<noteq> heap_blocks st"
      using L by simp_all
    from mm_free_heap_ok [OF ok this] L show ?thesis by fastforce
  next
    case False
    then have "mm_free p st = st" using free.hyps by (simp add: mm_free_def)
    then show ?thesis using ok L by auto
  qed
next
  case (realloc st L p n q st')
  then obtain bs where ok: "heap_ok st bs"
    and L: "\<forall>p\<in>L. p - 4 \<in> addrs True (heap_blocks st) bs \<and> p - 4 \<noteq> heap_blocks st"
    by blast
  have p: "p = NULL \<or> (p - 4 \<in> addrs True (heap_blocks st) bs \<and> p - 4 \<noteq> heap_blocks st)"
    using realloc.hyps(2) L by auto
  have n: "n = 0 \<or> uint n + 15 < 2 ^ 31"
    using realloc.hyps(3) by (simp add: small_request_def)
  from mm_realloc_heap_ok [OF ok p n realloc.hyps(4)] L
  show ?case by (cases "n = 0") fastforce+
next
  case (payload st L p a v)
  then obtain bs where ok: "heap_ok st bs"
    and L: "\<forall>p\<in>L. p - 4 \<in> addrs True (heap_blocks st) bs \<and> p - 4 \<noteq> heap_blocks st"
    by blast
  have "heap_ok (st\<lparr>mem := (mem st)(a := v)\<rparr>) bs"
    using ok L payload.hyps(2-4) by (intro write_heap_ok [of st bs p]) auto
  then show ?case using L by auto
qed

lemma malloc_loop_diverges:
  assumes ff: "find_fit R st = NULL"
    and ex: "snd (extend_heap (if 512 < R then R else 512) st) = st"
  shows "malloc_loop R NULL st = None"
proof -
  have "malloc_loop R' t st' = Some y \<Longrightarrow> \<not> (R' = R \<and> t = NULL \<and> st' = st)" for R' t st' y
  proof (induction R' t st' y rule: malloc_loop.raw_induct [rotated, consumes 1])
    case (1 loop R' t st' y)
    show ?case
    proof
      assume "R' = R \<and> t = NULL \<and> st' = st"
      then have eqs: "R' = R" "t = NULL" "st' = st" by simp_all
      have "loop R (find_fit R (snd (extend_heap (if 512 < R then R else 512) st)))
                   (snd (extend_heap (if 512 < R then R else 512) st)) = Some y"
        using 1(2) unfolding eqs by (simp add: Let_def)
      then have "loop R NULL st = Some y"
        by (simp only: ex ff)
      from 1(1) [OF this] show False by simp
    qed
  qed
  note never = this
  show ?thesis
  proof (cases "malloc_loop R NULL st")
    case None
    then show ?thesis .
  next
    case (Some y)
    from never [OF Some] show ?thesis by simp
  qed
qed

lemma addrs_allocated:
  assumes ok: "heap_ok st bs" and b: "b \<in> addrs f (heap_blocks st) bs"
  shows "mm_block_allocated st b = f"
proof -
  obtain xs s ys where bs: "bs = xs @ (s, f) # ys" "b = heap_blocks st + total xs"
    using addrs_split [OF b] by blast
  show ?thesis using block_facts(2) [OF ok bs] .
qed

lemma extend_heap_exact:
  assumes ok: "heap_ok st bs" and sz: "0 < sz" "8 dvd sz"
    and cap: "mem_brk st + sz \<le> mem_max_addr st"
  shows "heap_ok (snd (extend_heap sz st)) (coalesce_blocks bs sz [])"
    and "mm_list (snd (extend_heap sz st)) =
           coalesce_list bs sz [] (heap_blocks st + total bs) (mm_list st)"
    and "heap_blocks (snd (extend_heap sz st)) = heap_blocks st"
    and "mem_brk (snd (extend_heap sz st)) = mem_brk st + sz"
    and "mem_max_addr (snd (extend_heap sz st)) = mem_max_addr st"
proof -
  let ?h = "heap_blocks st" and ?m = "mem st"
  let ?e = "?h + total bs"
  have lay: "blocks_ok st bs" and fl: "free_list_ok st bs"
    using ok by (simp_all add: heap_ok_def)
  have ch: "chain ?m ?h bs" and brk: "mem_brk st = ?e + 4" and h0: "0 < ?h" and ne: "bs \<noteq> []"
    using lay by (simp_all add: blocks_ok_def)
  have t: "0 \<le> total bs" using ch by (rule chain_total_nonneg)
  have s8: "8 \<le> sz" using sz by (simp add: ge8)
  let ?st3 = "st\<lparr>mem_brk := mem_brk st + sz,
          mem := ?m(mem_brk st + sz - 4 := pack 0 True,
                    mem_brk st - 4 := pack sz False,
                    mem_brk st + sz - 8 := pack sz False)\<rparr>"
  have eq: "extend_heap sz st = free_coalesce ?e ?st3"
    using extend_heap_eq [of sz st] cap sz h0 t brk by simp
  have "chain (mem ?st3) ?h bs"
    using ch by (rule chain_cong) (use s8 brk in auto)
  then have lay3: "blocks_ok ?st3 (bs @ (sz, False) # [])"
    using lay cap sz s8 brk ne by (simp add: blocks_ok_def chain_append total_append)
  have "addrs False ?h (bs @ [(sz, True)]) = addrs False ?h bs"
    by (simp add: addrs_append)
  then have fl3: "free_list_ok ?st3 (bs @ (sz, True) # [])"
    using fl by (simp add: free_list_ok_def)
  have e: "?e = heap_blocks ?st3 + total bs" by simp
  note fc = free_coalesce_heap_ok [OF lay3 fl3 ne e]
  show "heap_ok (snd (extend_heap sz st)) (coalesce_blocks bs sz [])"
    and "mm_list (snd (extend_heap sz st)) = coalesce_list bs sz [] ?e (mm_list st)"
    and "heap_blocks (snd (extend_heap sz st)) = heap_blocks st"
    and "mem_brk (snd (extend_heap sz st)) = mem_brk st + sz"
    and "mem_max_addr (snd (extend_heap sz st)) = mem_max_addr st"
    unfolding eq using fc(1,3,5,6,7) by simp_all
qed

lemma mm_init_exact:
  assumes st0: "store_ok st0" and cap: "mem_brk st0 + 80 \<le> mem_max_addr st0"
  shows "fst (mm_init st0) = 0"
    and "heap_ok (snd (mm_init st0)) [(8, True), (64, False)]"
    and "mm_list (snd (mm_init st0)) = [mem_brk st0 + 12]"
    and "heap_blocks (snd (mm_init st0)) = mem_brk st0 + 4"
    and "mem_brk (snd (mm_init st0)) = mem_brk st0 + 80"
    and "mem_max_addr (snd (mm_init st0)) = mem_max_addr st0"
proof -
  let ?B = "mem_brk st0"
  have B: "0 < ?B" "?B mod 8 = 0" "mem_max_addr st0 - ?B < 2 ^ 31"
    using st0 by (simp_all add: store_ok_def)
  let ?s1 = "st0\<lparr>mm_list := [], mem_brk := ?B + 16,
             mem := (mem st0)(?B := pack 0 False, ?B + 4 := pack 8 True,
                              ?B + 8 := pack 8 True, ?B + 12 := pack 0 True),
             heap_blocks := ?B + 4\<rparr>"
  have eq: "mm_init st0 = (0, snd (extend_heap 64 ?s1))"
    using mm_init_eq [of st0] B(1) cap by simp
  have "(?B + 4) mod 8 = 4" using B(2) by presburger
  then have ok1: "heap_ok ?s1 [(8, True)]"
    using B cap by (simp add: heap_ok_def blocks_ok_def free_list_ok_def)
  have c: "mem_brk ?s1 + 64 \<le> mem_max_addr ?s1" using cap by simp
  note ex = extend_heap_exact [OF ok1 _ _ c, of]
  have cb: "coalesce_blocks [(8, True)] 64 [] = [(8, True), (64, False)]"
    by (simp add: coalesce_blocks_def prev_free_def next_free_def)
  have cl: "coalesce_list [(8, True)] 64 [] b [] = [b]" for b
    by (simp add: coalesce_list_def prev_free_def next_free_def)
  show "fst (mm_init st0) = 0" by (simp add: eq)
  show "heap_ok (snd (mm_init st0)) [(8, True), (64, False)]"
    using ex(1) by (simp add: eq cb)
  show "mm_list (snd (mm_init st0)) = [?B + 12]"
    using ex(2) by (simp add: eq cl)
  show "heap_blocks (snd (mm_init st0)) = ?B + 4"
    using ex(3) by (simp add: eq)
  show "mem_brk (snd (mm_init st0)) = ?B + 80"
    using ex(4) by (simp add: eq)
  show "mem_max_addr (snd (mm_init st0)) = mem_max_addr st0"
    using ex(5) by (simp add: eq)
qed

lemma place_exact:
  assumes ok: "heap_ok st (xs @ (S, False) # ys)"
    and b: "b = heap_blocks st + total xs"
    and R: "0 < R" "R \<le> S" "8 dvd R"
  shows "fst (place b R st) = place_addr b S R"
    and "heap_ok (snd (place b R st)) (xs @ place_split S R @ ys)"
    and "mm_list (snd (place b R st)) = place_list b S R (mm_list st)"
    and "heap_blocks (snd (place b R st)) = heap_blocks st"
    and "mem_brk (snd (place b R st)) = mem_brk st"
    and "mem_max_addr (snd (place b R st)) = mem_max_addr st"
  using place_heap_ok [OF ok b R] by auto

lemma mm_free_exact:
  assumes ok: "heap_ok st (xs @ (s, True) # ys)" and xs: "xs \<noteq> []"
    and p: "p - 4 = heap_blocks st + total xs"
  shows "heap_ok (mm_free p st) (coalesce_blocks xs s ys)"
    and "mm_list (mm_free p st) = coalesce_list xs s ys (p - 4) (mm_list st)"
    and "heap_blocks (mm_free p st) = heap_blocks st"
    and "mem_brk (mm_free p st) = mem_brk st"
    and "mem_max_addr (mm_free p st) = mem_max_addr st"
proof -
  have "0 < heap_blocks st" using ok by (simp add: heap_ok_def blocks_ok_def)
  then have "p \<noteq> NULL"
    using block_facts(6) [OF ok refl p] p by (auto simp: NULL_def)
  then have eq: "mm_free p st = snd (free_coalesce (p - 4) st)"
    by (simp add: mm_free_def)
  have lay: "blocks_ok st (xs @ (s, True) # ys)" and fl: "free_list_ok st (xs @ (s, True) # ys)"
    using ok by (simp_all add: heap_ok_def)
  note fc = free_coalesce_heap_ok [OF lay fl xs p]
  show "heap_ok (mm_free p st) (coalesce_blocks xs s ys)"
    and "mm_list (mm_free p st) = coalesce_list xs s ys (p - 4) (mm_list st)"
    and "heap_blocks (mm_free p st) = heap_blocks st"
    and "mem_brk (mm_free p st) = mem_brk st"
    and "mem_max_addr (mm_free p st) = mem_max_addr st"
    unfolding eq using fc(1,3,5,6,7) by simp_all
qed

lemma mm_malloc_fit:
  assumes n: "n \<noteq> 0" "uint n + 15 < 2 ^ 31"
    and f: "find_fit ((uint n + 15) div 8 * 8) st = b" "b \<noteq> NULL"
  shows "mm_malloc n st =
           Some (fst (place b ((uint n + 15) div 8 * 8) st) + 4,
                 snd (place b ((uint n + 15) div 8 * 8) st))"
proof -
  have n0: "0 < uint n"
    using n(1) by (simp add: word_neq_0_conv word_less_def)
  have req: "required_block_size (to_int32 (uint n)) = (uint n + 15) div 8 * 8"
    using n0 n(2) by (intro required_block_size_eq) simp_all
  show ?thesis
    using n(1) f
    by (subst mm_malloc_def) (simp add: req malloc_loop.simps [of _ b] split: prod.splits)
qed

lemma mm_malloc_extend:
  assumes n: "n \<noteq> 0" "uint n + 15 < 2 ^ 31"
    and f: "find_fit ((uint n + 15) div 8 * 8) st = NULL"
    and st1: "st1 = snd (extend_heap (max ((uint n + 15) div 8 * 8) 512) st)"
    and f1: "find_fit ((uint n + 15) div 8 * 8) st1 = b" "b \<noteq> NULL"
  shows "mm_malloc n st =
           Some (fst (place b ((uint n + 15) div 8 * 8) st1) + 4,
                 snd (place b ((uint n + 15) div 8 * 8) st1))"
proof -
  let ?R = "(uint n + 15) div 8 * 8"
  have n0: "0 < uint n"
    using n(1) by (simp add: word_neq_0_conv word_less_def)
  have req: "required_block_size (to_int32 (uint n)) = ?R"
    using n0 n(2) by (intro required_block_size_eq) simp_all
  have m: "(if 512 < ?R then ?R else 512) = max ?R 512" by simp
  have "malloc_loop ?R NULL st = malloc_loop ?R b st1"
    by (subst malloc_loop.simps) (simp only: Let_def m st1 [symmetric] f1 if_True refl)
  also have "\<dots> = Some (b, st1)"
    using f1(2) by (subst malloc_loop.simps) simp
  finally show ?thesis
    using n(1) f
    by (subst mm_malloc_def) (simp add: req split: prod.splits)
qed

lemma find_fit_single:
  "mm_list st = [b] \<Longrightarrow> find_fit R st = (if R \<le> mm_block_size st b then b else NULL)"
  by (simp add: find_fit_def)

lemma scenario_first_malloc:
  assumes st0: "store_ok st0" and cap: "mem_brk st0 + 592 \<le> mem_max_addr st0"
  shows "\<exists>s1. mm_malloc 100 (snd (mm_init st0)) = Some (mem_brk st0 + 480, s1) \<and>
           heap_ok s1 [(8, True), (464, False), (112, True)] \<and>
           mm_list s1 = [mem_brk st0 + 12] \<and> heap_blocks s1 = mem_brk st0 + 4 \<and>
           mem_brk s1 = mem_brk st0 + 592"
proof -
  let ?B = "mem_brk st0"
  let ?s0 = "snd (mm_init st0)"
  have B: "0 < ?B" using st0 by (simp add: store_ok_def)
  have cap80: "?B + 80 \<le> mem_max_addr st0" using cap by simp
  note i = mm_init_exact [OF st0 cap80]
  have n: "(100 :: size_t) \<noteq> 0" "uint (100 :: size_t) + 15 < 2 ^ 31" by simp_all
  have R: "(uint (100 :: size_t) + 15) div 8 * 8 = 112" by simp
  have sz0: "mm_block_size ?s0 (?B + 12) = 64"
    using block_facts(1) [OF i(2), of "[(8, True)]" 64 False "[]" "?B + 12"] i(4) by simp
  have ff0: "find_fit 112 ?s0 = NULL"
    by (simp add: find_fit_single [OF i(3)] sz0)
  define s1 where "s1 = snd (extend_heap (max 112 512) ?s0)"
  have c: "mem_brk ?s0 + 512 \<le> mem_max_addr ?s0" using cap i(5,6) by simp
  note e = extend_heap_exact [OF i(2) _ _ c]
  have cb: "coalesce_blocks [(8, True), (64, False)] 512 [] = [(8, True), (576, False)]"
    by (simp add: coalesce_blocks_def prev_free_def next_free_def)
  have cl: "coalesce_list [(8, True), (64, False)] 512 [] b l = l" for b l
    by (simp add: coalesce_list_def prev_free_def next_free_def)
  have ok1: "heap_ok s1 [(8, True), (576, False)]" and l1: "mm_list s1 = [?B + 12]"
    and h1: "heap_blocks s1 = ?B + 4" and b1: "mem_brk s1 = ?B + 592"
    using e(1,2,3,4) by (simp_all add: s1_def cb cl i)
  have sz1: "mm_block_size s1 (?B + 12) = 576"
    using block_facts(1) [OF ok1, of "[(8, True)]" 576 False "[]" "?B + 12"] h1 by simp
  have ff1: "find_fit 112 s1 = ?B + 12" "?B + 12 \<noteq> NULL"
    using B by (simp_all add: find_fit_single [OF l1] sz1 NULL_def)
  have m: "mm_malloc 100 ?s0 = Some (fst (place (?B + 12) 112 s1) + 4, snd (place (?B + 12) 112 s1))"
    using mm_malloc_extend [OF n, of ?s0 s1 "?B + 12"] ff0 ff1 by (simp add: R s1_def)
  have ok1': "heap_ok s1 ([(8, True)] @ (576, False) # [])" using ok1 by simp
  note p = place_exact [OF ok1', of "?B + 12" 112]
  have "fst (place (?B + 12) 112 s1) = ?B + 476"
    using p(1) by (simp add: h1 place_addr_def)
  moreover have "heap_ok (snd (place (?B + 12) 112 s1)) [(8, True), (464, False), (112, True)]"
    using p(2) by (simp add: h1 place_split_def)
  moreover have "mm_list (snd (place (?B + 12) 112 s1)) = [?B + 12]"
    using p(3) by (simp add: h1 place_list_def l1)
  moreover have "heap_blocks (snd (place (?B + 12) 112 s1)) = ?B + 4"
    "mem_brk (snd (place (?B + 12) 112 s1)) = ?B + 592"
    using p(4,5) by (simp_all add: h1 b1)
  ultimately show ?thesis
    using m by simp
qed

lemma scenario_second_malloc:
  assumes ok: "heap_ok s1 [(8, True), (464, False), (112, True)]"
    and l: "mm_list s1 = [h + 8]" and p: "p = h + 476" and h: "heap_blocks s1 = h"
  shows "\<exists>s3. mm_malloc 100 (mm_free p s1) = Some (p, s3) \<and>
           mem_brk (mm_free p s1) = mem_brk s1 \<and> mem_brk s3 = mem_brk s1"
proof -
  let ?s2 = "mm_free p s1"
  have h0: "0 < h" using ok h by (simp add: heap_ok_def blocks_ok_def)
  have n: "(100 :: size_t) \<noteq> 0" "uint (100 :: size_t) + 15 < 2 ^ 31" by simp_all
  have R: "(uint (100 :: size_t) + 15) div 8 * 8 = 112" by simp
  have ok': "heap_ok s1 ([(8, True), (464, False)] @ (112, True) # [])" using ok by simp
  note f = mm_free_exact [OF ok', of p]
  have cb: "coalesce_blocks [(8, True), (464, False)] 112 [] = [(8, True), (576, False)]"
    by (simp add: coalesce_blocks_def prev_free_def next_free_def)
  have cl: "coalesce_list [(8, True), (464, False)] 112 [] b l' = l'" for b l'
    by (simp add: coalesce_list_def prev_free_def next_free_def)
  have ok2: "heap_ok ?s2 [(8, True), (576, False)]" and l2: "mm_list ?s2 = [h + 8]"
    and h2: "heap_blocks ?s2 = h" and b2: "mem_brk ?s2 = mem_brk s1"
    using f(1,2,3,4) by (simp_all add: p h cb cl l)
  have sz2: "mm_block_size ?s2 (h + 8) = 576"
    using block_facts(1) [OF ok2, of "[(8, True)]" 576 False "[]" "h + 8"] h2 by simp
  have ff2: "find_fit 112 ?s2 = h + 8" "h + 8 \<noteq> NULL"
    using h0 by (simp_all add: find_fit_single [OF l2] sz2 NULL_def)
  have m: "mm_malloc 100 ?s2 = Some (fst (place (h + 8) 112 ?s2) + 4, snd (place (h + 8) 112 ?s2))"
    using mm_malloc_fit [OF n, of ?s2 "h + 8"] ff2 by (simp add: R)
  have ok2': "heap_ok ?s2 ([(8, True)] @ (576, False) # [])" using ok2 by simp
  note q = place_exact [OF ok2', of "h + 8" 112]
  have "fst (place (h + 8) 112 ?s2) = h + 472"
    using q(1) by (simp add: h2 place_addr_def)
  moreover have "mem_brk (snd (place (h + 8) 112 ?s2)) = mem_brk s1"
    using q(5) by (simp add: h2 b2)
  ultimately show ?thesis
    using m b2 by (simp add: p)
qed

lemma scenario_no_room:
  assumes st0: "store_ok st0" and cap: "mem_max_addr st0 < mem_brk st0 + 592"
    and i: "mm_init st0 = (0, s0)"
  shows "mm_malloc 100 s0 = None"
proof -
  let ?B = "mem_brk st0"
  have B: "0 < ?B" using st0 by (simp add: store_ok_def)
  have r: "required_block_size (to_int32 100) = 112"
    using required_block_size_eq [of 100] by simp
  have c16: "?B + 16 \<le> mem_max_addr st0"
    using i mm_init_fail [of st0] by (cases "mem_max_addr st0 < ?B + 16") auto
  have "find_fit 112 s0 = NULL \<and> mem_max_addr s0 < mem_brk s0 + 512"
  proof (cases "?B + 80 \<le> mem_max_addr st0")
    case True
    note e = mm_init_exact [OF st0 True]
    have s0: "s0 = snd (mm_init st0)" using i by simp
    have sz0: "mm_block_size s0 (?B + 12) = 64"
      using block_facts(1) [OF e(2), of "[(8, True)]" 64 False "[]" "?B + 12"] e(4)
      by (simp add: s0)
    show ?thesis
      using cap e(3,5,6) by (simp add: s0 [symmetric] find_fit_single [of s0 "?B + 12"] sz0)
  next
    case False
    let ?s1 = "st0\<lparr>mm_list := [], mem_brk := ?B + 16,
             mem := (mem st0)(?B := pack 0 False, ?B + 4 := pack 8 True,
                              ?B + 8 := pack 8 True, ?B + 12 := pack 0 True),
             heap_blocks := ?B + 4\<rparr>"
    have "extend_heap 64 ?s1 = (NULL, ?s1)"
      using False by (intro extend_heap_fail) simp
    then have "s0 = ?s1"
      using i mm_init_eq [OF B c16] by simp
    then show ?thesis
      using False by (simp add: find_fit_def)
  qed
  then have ff: "find_fit 112 s0 = NULL"
    and "snd (extend_heap (if 512 < (112 :: int) then 112 else 512) s0) = s0"
    by (simp_all add: extend_heap_fail)
  from malloc_loop_diverges [OF this] show ?thesis
    by (simp add: mm_malloc_def r ff)
qed

lemma malloc8_step:
  assumes ok: "heap_ok st (xs @ [(S, False)])" and l: "mm_list st = [b]"
    and b: "b = heap_blocks st + total xs" and S: "32 \<le> S"
  shows "mm_malloc 8 st \<noteq> None" and "fst (the (mm_malloc 8 st)) = b + 4"
    and "heap_ok (snd (the (mm_malloc 8 st))) (xs @ [(16, True), (S - 16, False)])"
    and "mm_list (snd (the (mm_malloc 8 st))) = [b + 16]"
    and "heap_blocks (snd (the (mm_malloc 8 st))) = heap_blocks st"
    and "mem_brk (snd (the (mm_malloc 8 st))) = mem_brk st"
proof -
  have n: "(8 :: size_t) \<noteq> 0" "uint (8 :: size_t) + 15 < 2 ^ 31" by simp_all
  have R: "(uint (8 :: size_t) + 15) div 8 * 8 = 16" by simp
  have ok': "heap_ok st (xs @ (S, False) # [])" using ok by simp
  have h0: "0 < heap_blocks st" using ok by (simp add: heap_ok_def blocks_ok_def)
  have sz: "mm_block_size st b = S" and t: "0 \<le> total xs"
    using block_facts(1,6) [OF ok' refl b] by simp_all
  have ff: "find_fit 16 st = b"
    using S by (simp add: find_fit_single [OF l] sz)
  have bn: "b \<noteq> NULL"
    using h0 t by (simp add: NULL_def b)
  have m: "mm_malloc 8 st = Some (fst (place b 16 st) + 4, snd (place b 16 st))"
    using mm_malloc_fit [OF n, of st b] ff bn by (simp add: R)
  note p = place_exact [OF ok' b, of 16]
  have 1: "fst (place b 16 st) = b" using p(1) S by (simp add: place_addr_def)
  have 2: "snd (the (mm_malloc 8 st)) = snd (place b 16 st)" by (simp add: m)
  show "mm_malloc 8 st \<noteq> None" "fst (the (mm_malloc 8 st)) = b + 4"
    using 1 by (simp_all add: m)
  show "heap_ok (snd (the (mm_malloc 8 st))) (xs @ [(16, True), (S - 16, False)])"
    unfolding 2 using p(2) S by (simp add: place_split_def)
  show "mm_list (snd (the (mm_malloc 8 st))) = [b + 16]"
    unfolding 2 using p(3) S by (simp add: place_list_def l)
  show "heap_blocks (snd (the (mm_malloc 8 st))) = heap_blocks st"
    and "mem_brk (snd (the (mm_malloc 8 st))) = mem_brk st"
    unfolding 2 using p(4,5) S by simp_all
qed

lemma Some_the: "x \<noteq> None \<Longrightarrow> fst (the x) = a \<Longrightarrow> x = Some (a, snd (the x))"
  by auto

lemma demo_store_ok: "store_ok (fresh_store 4096 1048576)"
  by (simp add: store_ok_def fresh_store_def)

lemma demo_heap_facts:
  "heap_ok demo_heap [(8, True), (64, False)]" "mm_list demo_heap = [4108]"
  "heap_blocks demo_heap = 4100" "mem_brk demo_heap = 4176"
  using mm_init_exact(2-5) [OF demo_store_ok] by (simp_all add: demo_heap_def fresh_store_def)

lemma demo_heap1_facts:
  "mm_malloc 8 demo_heap \<noteq> None" "fst (the (mm_malloc 8 demo_heap)) = 4112"
  "heap_ok demo_heap1 [(8, True), (16, True), (48, False)]" "mm_list demo_heap1 = [4124]"
  "heap_blocks demo_heap1 = 4100" "mem_brk demo_heap1 = 4176"
proof -
  have ok: "heap_ok demo_heap ([(8, True)] @ [(64, False)])"
    using demo_heap_facts(1) by simp
  have b: "4108 = heap_blocks demo_heap + total [(8, True)]"
    by (simp add: demo_heap_facts(3))
  have S: "(32 :: int) \<le> 64" by simp
  note s = malloc8_step [OF ok demo_heap_facts(2) b S, folded demo_heap1_def]
  show "mm_malloc 8 demo_heap \<noteq> None" by (rule s(1))
  show "fst (the (mm_malloc 8 demo_heap)) = 4112" using s(2) by simp
  show "heap_ok demo_heap1 [(8, True), (16, True), (48, False)]" using s(3) by simp
  show "mm_list demo_heap1 = [4124]" using s(4) by simp
  show "heap_blocks demo_heap1 = 4100" using s(5) by (simp add: demo_heap_facts(3))
  show "mem_brk demo_heap1 = 4176" using s(6) by (simp add: demo_heap_facts(4))
qed

lemma demo_malloc1: "mm_malloc 8 demo_heap = Some (4112, demo_heap1)"
  unfolding demo_heap1_def by (rule Some_the [OF demo_heap1_facts(1,2)])

lemma demo_heap2_facts:
  "mm_malloc 8 demo_heap1 \<noteq> None" "fst (the (mm_malloc 8 demo_heap1)) = 4128"
  "heap_ok demo_heap2 [(8, True), (16, True), (16, True), (32, False)]" "mm_list demo_heap2 = [4140]"
  "heap_blocks demo_heap2 = 4100" "mem_brk demo_heap2 = 4176"
proof -
  have ok: "heap_ok demo_heap1 ([(8, True), (16, True)] @ [(48, False)])"
    using demo_heap1_facts(3) by simp
  have b: "4124 = heap_blocks demo_heap1 + total [(8, True), (16, True)]"
    by (simp add: demo_heap1_facts(5))
  have S: "(32 :: int) \<le> 48" by simp
  note s = malloc8_step [OF ok demo_heap1_facts(4) b S, folded demo_heap2_def]
  show "mm_malloc 8 demo_heap1 \<noteq> None" by (rule s(1))
  show "fst (the (mm_malloc 8 demo_heap1)) = 4128" using s(2) by simp
  show "heap_ok demo_heap2 [(8, True), (16, True), (16, True), (32, False)]" using s(3) by simp
  show "mm_list demo_heap2 = [4140]" using s(4) by simp
  show "heap_blocks demo_heap2 = 4100" using s(5) by (simp add: demo_heap1_facts(5))
  show "mem_brk demo_heap2 = 4176" using s(6) by (simp add: demo_heap1_facts(6))
qed

lemma demo_malloc2: "mm_malloc 8 demo_heap1 = Some (4128, demo_heap2)"
  unfolding demo_heap2_def by (rule Some_the [OF demo_heap2_facts(1,2)])

lemma demo_heap3_facts:
  "mm_malloc 8 demo_heap2 \<noteq> None" "fst (the (mm_malloc 8 demo_heap2)) = 4144"
  "heap_ok demo_heap3 [(8, True), (16, True), (16, True), (16, True), (16, False)]"
  "mm_list demo_heap3 = [4156]"
  "heap_blocks demo_heap3 = 4100" "mem_brk demo_heap3 = 4176"
proof -
  have ok: "heap_ok demo_heap2 ([(8, True), (16, True), (16, True)] @ [(32, False)])"
    using demo_heap2_facts(3) by simp
  have b: "4140 = heap_blocks demo_heap2 + total [(8, True), (16, True), (16, True)]"
    by (simp add: demo_heap2_facts(5))
  have S: "(32 :: int) \<le> 32" by simp
  note s = malloc8_step [OF ok demo_heap2_facts(4) b S, folded demo_heap3_def]
  show "mm_malloc 8 demo_heap2 \<noteq> None" by (rule s(1))
  show "fst (the (mm_malloc 8 demo_heap2)) = 4144" using s(2) by simp
  show "heap_ok demo_heap3 [(8, True), (16, True), (16, True), (16, True), (16, False)]"
    using s(3) by simp
  show "mm_list demo_heap3 = [4156]" using s(4) by simp
  show "heap_blocks demo_heap3 = 4100" using s(5) by (simp add: demo_heap2_facts(5))
  show "mem_brk demo_heap3 = 4176" using s(6) by (simp add: demo_heap2_facts(6))
qed

lemma demo_heap_ok: "heap_ok demo_heap [(8, True), (64, False)]"
  by (rule demo_heap_facts(1))

lemma demo_heap1_ok: "heap_ok demo_heap1 [(8, True), (16, True), (48, False)]"
  by (rule demo_heap1_facts(3))

lemma demo_heap_init: "mm_init (fresh_store 4096 1048576) = (0, demo_heap)"
  using mm_init_exact(1) [OF demo_store_ok]
  unfolding demo_heap_def by (simp add: fresh_store_def prod_eq_iff)

lemma demo_heap_reach: "reach ok demo_heap {}"
  by (rule reach.init [OF demo_store_ok demo_heap_init])

lemma total_butlast: "xs \<noteq> [] \<Longrightarrow> total (butlast xs) + fst (last xs) = total xs"
  by (induction xs rule: rev_induct) (auto simp: total_append)

lemma pair_low_general:
  assumes ok: "heap_ok st (xs @ (s1, True) # (s2, True) # ys)" and xs: "xs \<noteq> []"
    and p1: "p1 - 4 = heap_blocks st + total xs" and p2: "p2 = p1 + s1"
  shows "heap_ok (mm_free p2 (mm_free p1 st)) (coalesce_blocks xs (s1 + s2) ys)"
    and "mm_list (mm_free p2 (mm_free p1 st)) = coalesce_list xs (s1 + s2) ys (p1 - 4) (mm_list st)"
    and "heap_blocks (mm_free p2 (mm_free p1 st)) = heap_blocks st"
    and "fst (free_coalesce (p2 - 4) (mm_free p1 st)) =
           (if prev_free xs then p1 - 4 - fst (last xs) else p1 - 4)"
proof -
  let ?h = "heap_blocks st" and ?l = "mm_list st"
  define xs' where "xs' = (if prev_free xs then butlast xs else xs)"
  define pfs where "pfs = (if prev_free xs then fst (last xs) else 0)"
  define lp where "lp = (if prev_free xs then [] else [p1 - 4])"
  have tx: "total xs' + pfs = total xs"
    using total_butlast [OF xs] by (simp add: xs'_def pfs_def)
  have pos: "8 \<le> s1" "8 \<le> s2"
    using block_facts(3,9) [OF ok refl p1] by auto
  note a = mm_free_exact [OF ok xs p1]
  have a1: "coalesce_blocks xs s1 ((s2, True) # ys) = (xs' @ [(pfs + s1, False)]) @ (s2, True) # ys"
    by (simp add: coalesce_blocks_def next_free_def xs'_def pfs_def)
  have a2: "coalesce_list xs s1 ((s2, True) # ys) (p1 - 4) ?l = lp @ ?l"
    by (simp add: coalesce_list_def next_free_def lp_def)
  have oka: "heap_ok (mm_free p1 st) ((xs' @ [(pfs + s1, False)]) @ (s2, True) # ys)"
    using a(1) by (simp only: a1)
  have la: "mm_list (mm_free p1 st) = lp @ ?l"
    using a(2) by (simp only: a2)
  have pa: "p2 - 4 = heap_blocks (mm_free p1 st) + total (xs' @ [(pfs + s1, False)])"
    unfolding a(3) total_append p2 using p1 tx by simp
  have ne: "xs' @ [(pfs + s1, False)] \<noteq> []" by simp
  note b = mm_free_exact [OF oka ne pa]
  have lay_a: "blocks_ok (mm_free p1 st) ((xs' @ [(pfs + s1, False)]) @ (s2, True) # ys)"
    and fl_a: "free_list_ok (mm_free p1 st) ((xs' @ [(pfs + s1, False)]) @ (s2, True) # ys)"
    using oka by (simp_all add: heap_ok_def)
  have b1: "coalesce_blocks (xs' @ [(pfs + s1, False)]) s2 ys = coalesce_blocks xs (s1 + s2) ys"
    by (simp add: coalesce_blocks_def prev_free_def xs'_def pfs_def)
  define q where "q = p1 - 4 + (s1 + s2)"
  have e: "p2 - 4 + s2 = q" "q \<noteq> p1 - 4"
    using pos by (simp_all add: q_def p2)
  have b2: "coalesce_list (xs' @ [(pfs + s1, False)]) s2 ys (p2 - 4) (lp @ ?l) =
                   coalesce_list xs (s1 + s2) ys (p1 - 4) ?l"
    unfolding coalesce_list_def e(1) q_def [symmetric]
    using e(2) by (simp add: prev_free_def lp_def)
  show "heap_ok (mm_free p2 (mm_free p1 st)) (coalesce_blocks xs (s1 + s2) ys)"
    using b(1) by (simp only: b1)
  show "mm_list (mm_free p2 (mm_free p1 st)) = coalesce_list xs (s1 + s2) ys (p1 - 4) ?l"
    using b(2) by (simp only: la b2)
  show "heap_blocks (mm_free p2 (mm_free p1 st)) = ?h"
    using b(3) by (simp only: a(3))
  have "fst (free_coalesce (p2 - 4) (mm_free p1 st)) = p2 - 4 - (pfs + s1)"
    using free_coalesce_heap_ok(2) [OF lay_a fl_a ne pa] by (simp add: prev_free_def)
  then show "fst (free_coalesce (p2 - 4) (mm_free p1 st)) =
           (if prev_free xs then p1 - 4 - fst (last xs) else p1 - 4)"
    by (simp add: p2 pfs_def)
qed

lemma pair_high_general:
  assumes ok: "heap_ok st (xs @ (s1, True) # (s2, True) # ys)" and xs: "xs \<noteq> []"
    and p1: "p1 - 4 = heap_blocks st + total xs" and p2: "p2 = p1 + s1"
  shows "heap_ok (mm_free p1 (mm_free p2 st)) (coalesce_blocks xs (s1 + s2) ys)"
    and "mm_list (mm_free p1 (mm_free p2 st)) = coalesce_list xs (s1 + s2) ys (p1 - 4) (mm_list st)"
    and "heap_blocks (mm_free p1 (mm_free p2 st)) = heap_blocks st"
    and "fst (free_coalesce (p1 - 4) (mm_free p2 st)) =
           (if prev_free xs then p1 - 4 - fst (last xs) else p1 - 4)"
proof -
  let ?h = "heap_blocks st" and ?l = "mm_list st"
  define ys' where "ys' = (if next_free ys then tl ys else ys)"
  define nfs where "nfs = (if next_free ys then fst (hd ys) else 0)"
  define ln where "ln = (if next_free ys then remove1 (p2 - 4 + s2) ?l else ?l)"
  have okc: "heap_ok st ((xs @ [(s1, True)]) @ (s2, True) # ys)" using ok by simp
  have pc: "p2 - 4 = ?h + total (xs @ [(s1, True)])"
    unfolding total_append p2 using p1 by simp
  have ne: "xs @ [(s1, True)] \<noteq> []" by simp
  note c = mm_free_exact [OF okc ne pc]
  have c1: "coalesce_blocks (xs @ [(s1, True)]) s2 ys = xs @ (s1, True) # (s2 + nfs, False) # ys'"
    by (simp add: coalesce_blocks_def prev_free_def ys'_def nfs_def)
  have c2: "coalesce_list (xs @ [(s1, True)]) s2 ys (p2 - 4) ?l = (p2 - 4) # ln"
    by (simp add: coalesce_list_def prev_free_def ln_def)
  have okd: "heap_ok (mm_free p2 st) (xs @ (s1, True) # (s2 + nfs, False) # ys')"
    using c(1) by (simp only: c1)
  have ld: "mm_list (mm_free p2 st) = (p2 - 4) # ln"
    using c(2) by (simp only: c2)
  have pd: "p1 - 4 = heap_blocks (mm_free p2 st) + total xs"
    unfolding c(3) by (rule p1)
  note d = mm_free_exact [OF okd xs pd]
  have lay_d: "blocks_ok (mm_free p2 st) (xs @ (s1, True) # (s2 + nfs, False) # ys')"
    and fl_d: "free_list_ok (mm_free p2 st) (xs @ (s1, True) # (s2 + nfs, False) # ys')"
    using okd by (simp_all add: heap_ok_def)
  have d1: "coalesce_blocks xs s1 ((s2 + nfs, False) # ys') = coalesce_blocks xs (s1 + s2) ys"
    by (simp add: coalesce_blocks_def next_free_def ys'_def nfs_def)
  define q where "q = p1 - 4 + (s1 + s2)"
  have e: "p1 - 4 + s1 = p2 - 4" "p2 - 4 + s2 = q"
    by (simp_all add: q_def p2)
  have d2: "coalesce_list xs s1 ((s2 + nfs, False) # ys') (p1 - 4) ((p2 - 4) # ln) =
                   coalesce_list xs (s1 + s2) ys (p1 - 4) ?l"
    unfolding coalesce_list_def ln_def e q_def [symmetric]
    by (simp add: next_free_def)
  show "heap_ok (mm_free p1 (mm_free p2 st)) (coalesce_blocks xs (s1 + s2) ys)"
    using d(1) by (simp only: d1)
  show "mm_list (mm_free p1 (mm_free p2 st)) = coalesce_list xs (s1 + s2) ys (p1 - 4) ?l"
    using d(2) by (simp only: ld d2)
  show "heap_blocks (mm_free p1 (mm_free p2 st)) = ?h"
    using d(3) by (simp only: c(3))
  show "fst (free_coalesce (p1 - 4) (mm_free p2 st)) =
           (if prev_free xs then p1 - 4 - fst (last xs) else p1 - 4)"
    using free_coalesce_heap_ok(2) [OF lay_d fl_d xs pd] by simp
qed

lemma coalesce_blocks_block:
  assumes ok: "heap_ok st (coalesce_blocks xs s ys)" and xs: "xs \<noteq> []"
    and b: "b = heap_blocks st + total xs"
  shows "mm_block_size st (if prev_free xs then b - fst (last xs) else b) =
           (if prev_free xs then fst (last xs) else 0) + s + (if next_free ys then fst (hd ys) else 0)"
    and "\<not> mm_block_allocated st (if prev_free xs then b - fst (last xs) else b)"
proof -
  let ?xs = "if prev_free xs then butlast xs else xs"
  let ?b = "if prev_free xs then b - fst (last xs) else b"
  let ?S = "(if prev_free xs then fst (last xs) else 0) + s + (if next_free ys then fst (hd ys) else 0)"
  let ?ys = "if next_free ys then tl ys else ys"
  have ok': "heap_ok st (?xs @ (?S, False) # ?ys)"
    using ok by (simp only: coalesce_blocks_def)
  have "?b = heap_blocks st + total ?xs"
    using total_butlast [OF xs] by (simp add: b)
  note f = block_facts(1,2) [OF ok' refl this]
  show "mm_block_size st ?b = ?S" by (rule f(1))
  show "\<not> mm_block_allocated st ?b" using f(2) by simp
qed

lemma demo_free_low_high:
  "heap_ok (mm_free 4128 (mm_free 4112 demo_heap2)) [(8, True), (64, False)]"
  "heap_blocks (mm_free 4128 (mm_free 4112 demo_heap2)) = 4100"
proof -
  let ?a = "mm_free 4112 demo_heap2"
  have ok: "heap_ok demo_heap2 ([(8, True)] @ (16, True) # [(16, True), (32, False)])"
    using demo_heap2_facts(3) by simp
  have p: "4112 - 4 = heap_blocks demo_heap2 + total [(8, True)]"
    by (simp add: demo_heap2_facts(5))
  note a = mm_free_exact [OF ok _ p]
  have a1: "coalesce_blocks [(8, True)] 16 [(16, True), (32, False)] =
              [(8, True), (16, False)] @ (16, True) # [(32, False)]"
    by (simp add: coalesce_blocks_def prev_free_def next_free_def)
  have oka: "heap_ok ?a ([(8, True), (16, False)] @ (16, True) # [(32, False)])"
    using a(1) by (simp only: a1) simp
  have ha: "heap_blocks ?a = 4100"
    using a(3) by (simp add: demo_heap2_facts(5))
  have q: "4128 - 4 = heap_blocks ?a + total [(8, True), (16, False)]"
    by (simp add: ha)
  note b = mm_free_exact [OF oka _ q]
  have b1: "coalesce_blocks [(8, True), (16, False)] 16 [(32, False)] = [(8, True), (64, False)]"
    by (simp add: coalesce_blocks_def prev_free_def next_free_def)
  show "heap_ok (mm_free 4128 ?a) [(8, True), (64, False)]"
    using b(1) by (simp only: b1) simp
  show "heap_blocks (mm_free 4128 ?a) = 4100"
    using b(3) by (simp add: ha)
qed

lemma demo_free_high_low:
  "heap_ok (mm_free 4112 (mm_free 4128 demo_heap2)) [(8, True), (64, False)]"
  "heap_blocks (mm_free 4112 (mm_free 4128 demo_heap2)) = 4100"
proof -
  let ?a = "mm_free 4128 demo_heap2"
  have ok: "heap_ok demo_heap2 ([(8, True), (16, True)] @ (16, True) # [(32, False)])"
    using demo_heap2_facts(3) by simp
  have p: "4128 - 4 = heap_blocks demo_heap2 + total [(8, True), (16, True)]"
    by (simp add: demo_heap2_facts(5))
  note a = mm_free_exact [OF ok _ p]
  have a1: "coalesce_blocks [(8, True), (16, True)] 16 [(32, False)] =
              [(8, True)] @ (16, True) # [(48, False)]"
    by (simp add: coalesce_blocks_def prev_free_def next_free_def)
  have oka: "heap_ok ?a ([(8, True)] @ (16, True) # [(48, False)])"
    using a(1) by (simp only: a1) simp
  have ha: "heap_blocks ?a = 4100"
    using a(3) by (simp add: demo_heap2_facts(5))
  have q: "4112 - 4 = heap_blocks ?a + total [(8, True)]"
    by (simp add: ha)
  note b = mm_free_exact [OF oka _ q]
  have b1: "coalesce_blocks [(8, True)] 16 [(48, False)] = [(8, True), (64, False)]"
    by (simp add: coalesce_blocks_def prev_free_def next_free_def)
  show "heap_ok (mm_free 4112 ?a) [(8, True), (64, False)]"
    using b(1) by (simp only: b1) simp
  show "heap_blocks (mm_free 4112 ?a) = 4100"
    using b(3) by (simp add: ha)
qed

lemma demo_heap_max: "mem_max_addr demo_heap = 1052672"
  using mm_init_exact(6) [OF demo_store_ok] by (simp add: demo_heap_def fresh_store_def)

lemma pair_heap1_facts:
  "mm_malloc 40 demo_heap = Some (4112, pair_heap1)"
  "heap_ok pair_heap1 [(8, True), (48, True), (16, False)]"
  "mm_list pair_heap1 = [4156]" "heap_blocks pair_heap1 = 4100"
  "mem_brk pair_heap1 = 4176" "mem_max_addr pair_heap1 = 1052672"
proof -
  have n: "(40 :: size_t) \<noteq> 0" "uint (40 :: size_t) + 15 < 2 ^ 31" by simp_all
  have R: "(uint (40 :: size_t) + 15) div 8 * 8 = 48" by simp
  have ok: "heap_ok demo_heap ([(8, True)] @ (64, False) # [])"
    using demo_heap_facts(1) by simp
  have b: "4108 = heap_blocks demo_heap + total [(8, True)]"
    by (simp add: demo_heap_facts(3))
  have sz: "mm_block_size demo_heap 4108 = 64"
    using block_facts(1) [OF ok refl b] .
  have ff: "find_fit 48 demo_heap = 4108" "(4108 :: int) \<noteq> NULL"
    by (simp_all add: find_fit_single [OF demo_heap_facts(2)] sz NULL_def)
  have m: "mm_malloc 40 demo_heap =
      Some (fst (place 4108 48 demo_heap) + 4, snd (place 4108 48 demo_heap))"
    using mm_malloc_fit [OF n, of demo_heap 4108] ff by (simp add: R)
  note p = place_exact [OF ok b, of 48]
  have 1: "fst (place 4108 48 demo_heap) = 4108"
    using p(1) by (simp add: place_addr_def)
  have e: "pair_heap1 = snd (place 4108 48 demo_heap)"
    by (simp add: pair_heap1_def m)
  show "mm_malloc 40 demo_heap = Some (4112, pair_heap1)"
    by (simp add: m 1 e)
  show "heap_ok pair_heap1 [(8, True), (48, True), (16, False)]"
    unfolding e using p(2) by (simp add: place_split_def)
  show "mm_list pair_heap1 = [4156]"
    unfolding e using p(3) by (simp add: place_list_def demo_heap_facts(2))
  show "heap_blocks pair_heap1 = 4100" "mem_brk pair_heap1 = 4176"
    "mem_max_addr pair_heap1 = 1052672"
    unfolding e using p(4,5,6) by (simp_all add: demo_heap_facts(3,4) demo_heap_max)
qed

lemma pair_heap2_facts:
  "mm_malloc 40 pair_heap1 = Some (4160, pair_heap2)"
  "heap_ok pair_heap2 [(8, True), (48, True), (48, True), (480, False)]"
  "heap_blocks pair_heap2 = 4100" "mm_list pair_heap2 = [4204]"
proof -
  have n: "(40 :: size_t) \<noteq> 0" "uint (40 :: size_t) + 15 < 2 ^ 31" by simp_all
  have R: "(uint (40 :: size_t) + 15) div 8 * 8 = 48" by simp
  have ok: "heap_ok pair_heap1 ([(8, True), (48, True)] @ (16, False) # [])"
    using pair_heap1_facts(2) by simp
  have b: "4156 = heap_blocks pair_heap1 + total [(8, True), (48, True)]"
    by (simp add: pair_heap1_facts(4))
  have sz: "mm_block_size pair_heap1 4156 = 16"
    using block_facts(1) [OF ok refl b] .
  have ff: "find_fit 48 pair_heap1 = NULL"
    by (simp add: find_fit_single [OF pair_heap1_facts(3)] sz)
  define s where "s = snd (extend_heap (max 48 512) pair_heap1)"
  have c: "mem_brk pair_heap1 + 512 \<le> mem_max_addr pair_heap1"
    by (simp add: pair_heap1_facts(5,6))
  note x = extend_heap_exact [OF pair_heap1_facts(2) _ _ c]
  have cb: "coalesce_blocks [(8, True), (48, True), (16, False)] 512 [] =
              [(8, True), (48, True), (528, False)]"
    by (simp add: coalesce_blocks_def prev_free_def next_free_def)
  have cl: "coalesce_list [(8, True), (48, True), (16, False)] 512 [] a l = l" for a l
    by (simp add: coalesce_list_def prev_free_def next_free_def)
  have oks: "heap_ok s ([(8, True), (48, True)] @ (528, False) # [])" and ls: "mm_list s = [4156]"
    and hs: "heap_blocks s = 4100"
    using x(1,2,3) by (simp_all add: s_def cb cl pair_heap1_facts(3,4))
  have bs: "4156 = heap_blocks s + total [(8, True), (48, True)]"
    by (simp add: hs)
  have szs: "mm_block_size s 4156 = 528"
    using block_facts(1) [OF oks refl bs] .
  have ffs: "find_fit 48 s = 4156" "(4156 :: int) \<noteq> NULL"
    by (simp_all add: find_fit_single [OF ls] szs NULL_def)
  have m: "mm_malloc 40 pair_heap1 = Some (fst (place 4156 48 s) + 4, snd (place 4156 48 s))"
    using mm_malloc_extend [OF n, of pair_heap1 s 4156] ff ffs by (simp add: R s_def)
  note p = place_exact [OF oks bs, of 48]
  have 1: "fst (place 4156 48 s) = 4156"
    using p(1) by (simp add: place_addr_def)
  have e: "pair_heap2 = snd (place 4156 48 s)"
    by (simp add: pair_heap2_def m)
  show "mm_malloc 40 pair_heap1 = Some (4160, pair_heap2)"
    by (simp add: m 1 e)
  show "heap_ok pair_heap2 [(8, True), (48, True), (48, True), (480, False)]"
    unfolding e using p(2) by (simp add: place_split_def)
  show "heap_blocks pair_heap2 = 4100"
    unfolding e using p(4) by (simp add: hs)
  show "mm_list pair_heap2 = [4204]"
    unfolding e using p(3) by (simp add: place_list_def ls)
qed

lemma pair_heap_free:
  "heap_ok (mm_free 4160 (mm_free 4112 pair_heap2)) [(8, True), (576, False)]"
  "heap_ok (mm_free 4112 (mm_free 4160 pair_heap2)) [(8, True), (576, False)]"
  "mm_block_size (mm_free 4160 (mm_free 4112 pair_heap2)) 4108 = 576"
  "mm_block_size (mm_free 4112 (mm_free 4160 pair_heap2)) 4108 = 576"
  "mm_list (mm_free 4160 (mm_free 4112 pair_heap2)) = [4108]"
  "mm_list (mm_free 4112 (mm_free 4160 pair_heap2)) = [4108]"
proof -
  let ?a = "mm_free 4112 pair_heap2" and ?c = "mm_free 4160 pair_heap2"
  note l = pair_heap2_facts(4)
  have ok: "heap_ok pair_heap2 ([(8, True)] @ (48, True) # [(48, True), (480, False)])"
    using pair_heap2_facts(2) by simp
  have p: "4112 - 4 = heap_blocks pair_heap2 + total [(8, True)]"
    by (simp add: pair_heap2_facts(3))
  note a = mm_free_exact [OF ok _ p]
  have a1: "coalesce_blocks [(8, True)] 48 [(48, True), (480, False)] =
              [(8, True), (48, False)] @ (48, True) # [(480, False)]"
    by (simp add: coalesce_blocks_def prev_free_def next_free_def)
  have a2: "coalesce_list [(8, True)] 48 [(48, True), (480, False)] b k = b # k" for b k
    by (simp add: coalesce_list_def prev_free_def next_free_def)
  have oka: "heap_ok ?a ([(8, True), (48, False)] @ (48, True) # [(480, False)])"
    using a(1) by (simp only: a1) simp
  have la: "mm_list ?a = [4108, 4204]"
    using a(2) by (simp add: a2 l)
  have ha: "heap_blocks ?a = 4100"
    using a(3) by (simp add: pair_heap2_facts(3))
  have q: "4160 - 4 = heap_blocks ?a + total [(8, True), (48, False)]"
    by (simp add: ha)
  note b = mm_free_exact [OF oka _ q]
  have b1: "coalesce_blocks [(8, True), (48, False)] 48 [(480, False)] = [(8, True), (576, False)]"
    by (simp add: coalesce_blocks_def prev_free_def next_free_def)
  have b2: "coalesce_list [(8, True), (48, False)] 48 [(480, False)] (4160 - 4) [4108, 4204] = [4108]"
    by (simp add: coalesce_list_def prev_free_def next_free_def)
  show r1: "heap_ok (mm_free 4160 ?a) [(8, True), (576, False)]"
    using b(1) by (simp only: b1) simp
  show "mm_list (mm_free 4160 ?a) = [4108]"
    using b(2) by (simp only: la b2) simp
  have h1: "4108 = heap_blocks (mm_free 4160 ?a) + total [(8, True)]"
    using b(3) by (simp add: ha)
  have e: "[(8, True), (576, False)] = [(8 :: int, True)] @ (576, False) # []" by simp
  show "mm_block_size (mm_free 4160 ?a) 4108 = 576"
    by (rule block_facts(1) [OF r1 e h1])
  have okc0: "heap_ok pair_heap2 ([(8, True), (48, True)] @ (48, True) # [(480, False)])"
    using pair_heap2_facts(2) by simp
  have pc: "4160 - 4 = heap_blocks pair_heap2 + total [(8, True), (48, True)]"
    by (simp add: pair_heap2_facts(3))
  note c = mm_free_exact [OF okc0 _ pc]
  have c1: "coalesce_blocks [(8, True), (48, True)] 48 [(480, False)] =
              [(8, True)] @ (48, True) # [(528, False)]"
    by (simp add: coalesce_blocks_def prev_free_def next_free_def)
  have c2: "coalesce_list [(8, True), (48, True)] 48 [(480, False)] (4160 - 4) [4204] = [4156]"
    by (simp add: coalesce_list_def prev_free_def next_free_def)
  have okc: "heap_ok ?c ([(8, True)] @ (48, True) # [(528, False)])"
    using c(1) by (simp only: c1) simp
  have lc: "mm_list ?c = [4156]"
    using c(2) by (simp only: l c2) simp
  have hc: "heap_blocks ?c = 4100"
    using c(3) by (simp add: pair_heap2_facts(3))
  have qc: "4112 - 4 = heap_blocks ?c + total [(8, True)]"
    by (simp add: hc)
  note d = mm_free_exact [OF okc _ qc]
  have d1: "coalesce_blocks [(8, True)] 48 [(528, False)] = [(8, True), (576, False)]"
    by (simp add: coalesce_blocks_def prev_free_def next_free_def)
  have d2: "coalesce_list [(8, True)] 48 [(528, False)] (4112 - 4) [4156] = [4108]"
    by (simp add: coalesce_list_def prev_free_def next_free_def)
  show r2: "heap_ok (mm_free 4112 ?c) [(8, True), (576, False)]"
    using d(1) by (simp only: d1) simp
  show "mm_list (mm_free 4112 ?c) = [4108]"
    using d(2) by (simp only: lc d2) simp
  have h2: "4108 = heap_blocks (mm_free 4112 ?c) + total [(8, True)]"
    using d(3) by (simp add: hc)
  show "mm_block_size (mm_free 4112 ?c) 4108 = 576"
    by (rule block_facts(1) [OF r2 e h2])
qed

lemma demo_heap_mem:
  "mem demo_heap 4100 = pack 8 True" "mem demo_heap 4104 = pack 8 True"
  "mem demo_heap 4108 = pack 64 False" "mem demo_heap 4168 = pack 64 False"
  using demo_heap_facts(1)
  by (simp_all add: heap_ok_def blocks_ok_def demo_heap_facts(3))

lemma required_block_size_dvd: "8 dvd required_block_size x"
proof -
  have "8 dvd to_int32 (k * 8)" for k :: int
    unfolding to_int32_def by (intro dvd_diff dvd_mod dvd_add) simp_all
  then show ?thesis by (simp add: required_block_size_def Let_def)
qed

lemma to_int32_less: "to_int32 x < 2 ^ 31"
  unfolding to_int32_def by simp

lemma required_block_size_less: "required_block_size x < 2 ^ 31"
  unfolding required_block_size_def Let_def by (rule to_int32_less)

lemma place_split_size:
  assumes ok: "heap_ok st (xs @ place_split S R @ ys)" and b: "b = heap_blocks st + total xs"
  shows "mm_block_size st (place_addr b S R) = (if S - R < 16 then S else R)"
proof (cases "S - R < 16")
  case True
  then have "heap_ok st (xs @ (S, True) # ys)"
    using ok by (simp add: place_split_def)
  from block_facts(1) [OF this refl b] show ?thesis
    using True by (simp add: place_addr_def)
next
  case False
  show ?thesis
  proof (cases "75 \<le> R")
    case True
    have "heap_ok st ((xs @ [(S - R, False)]) @ (R, True) # ys)"
      using ok False True by (simp add: place_split_def)
    moreover have "b + (S - R) = heap_blocks st + total (xs @ [(S - R, False)])"
      by (simp add: b total_append)
    ultimately have "mm_block_size st (b + (S - R)) = R"
      by (rule block_facts(1) [OF _ refl])
    then show ?thesis using False True by (simp add: place_addr_def)
  next
    case R: False
    have "heap_ok st (xs @ (R, True) # (S - R, False) # ys)"
      using ok False R by (simp add: place_split_def)
    from block_facts(1) [OF this refl b] show ?thesis
      using False R by (simp add: place_addr_def)
  qed
qed

lemma mm_malloc_block:
  assumes ok: "heap_ok st bs" and n: "n \<noteq> 0"
    and R: "0 < required_block_size (to_int32 (uint n))"
    and res: "mm_malloc n st = Some (p, st')"
  shows "\<exists>bs'. heap_ok st' bs' \<and> p - 4 \<in> addrs True (heap_blocks st') bs' \<and>
           p - 4 \<notin> addrs True (heap_blocks st) bs \<and>
           mm_block_allocated st' (p - 4) \<and>
           (mm_block_size st' (p - 4) = required_block_size (to_int32 (uint n)) \<or>
            mm_block_size st' (p - 4) = required_block_size (to_int32 (uint n)) + 8)"
proof -
  let ?h = "heap_blocks st"
  let ?R = "required_block_size (to_int32 (uint n))"
  have R8: "8 dvd ?R" by (rule required_block_size_dvd)
  obtain temp st1 where loop: "malloc_loop ?R (find_fit ?R st) st = Some (temp, st1)"
    and pl: "place temp ?R st1 = (p - 4, st')"
    using res n by (auto simp: mm_malloc_def Let_def split: option.splits prod.splits)
  have "loop_inv ?h (addrs True ?h bs) (mem_max_addr st) st"
    using ok by (auto simp: loop_inv_def)
  from malloc_loop_inv [OF loop, rule_format, OF R R8 this]
  have inv1: "loop_inv ?h (addrs True ?h bs) (mem_max_addr st) st1"
    and temp: "find_fit ?R st1 = temp" "temp \<noteq> NULL"
    by simp_all
  then obtain bs1 where ok1: "heap_ok st1 bs1" and A1: "addrs True ?h bs1 = addrs True ?h bs"
    and h1: "heap_blocks st1 = ?h"
    by (auto simp: loop_inv_def)
  obtain xs S ys where bs1: "bs1 = xs @ (S, False) # ys" "temp = ?h + total xs" "?R \<le> S"
    using find_fit_free_block [OF ok1 temp] h1 by auto
  have S8: "8 dvd S"
    using block_facts(4) [OF ok1 bs1(1)] bs1(2) h1 by simp
  let ?r = "place_addr temp S ?R" and ?bs' = "xs @ place_split S ?R @ ys"
  have ok1': "heap_ok st1 (xs @ (S, False) # ys)" using ok1 bs1(1) by simp
  have t1: "temp = heap_blocks st1 + total xs" using bs1(2) h1 by simp
  note pe = place_exact [OF ok1' t1 R bs1(3) R8]
  have e: "p - 4 = ?r" "st' = snd (place temp ?R st1)"
    using pl pe(1) by simp_all
  have ok': "heap_ok st' ?bs'" using pe(2) by (simp add: e(2))
  have h': "heap_blocks st' = ?h" using pe(4) by (simp add: e(2) h1)
  from place_heap_ok [OF ok1' t1 R bs1(3) R8]
  obtain st2 where "place temp ?R st1 = (?r, st2) \<and>
           heap_ok st2 ?bs' \<and>
           mm_list st2 = place_list temp S ?R (mm_list st1) \<and>
           total ?bs' = total (xs @ (S, False) # ys) \<and>
           addrs True (heap_blocks st1) ?bs' =
             insert ?r (addrs True (heap_blocks st1) (xs @ (S, False) # ys)) \<and>
           ?r \<notin> addrs True (heap_blocks st1) (xs @ (S, False) # ys) \<and>
           heap_blocks st1 < ?r \<and> ?r mod 8 = 4 \<and>
           ?R \<le> mm_block_size st2 ?r \<and> mm_block_allocated st2 ?r \<and>
           heap_blocks st2 = heap_blocks st1 \<and> mem_brk st2 = mem_brk st1 \<and>
           mem_max_addr st2 = mem_max_addr st1" ..
  then have r: "place temp ?R st1 = (?r, st2)"
    "addrs True ?h ?bs' = insert ?r (addrs True ?h bs)"
    "?r \<notin> addrs True ?h bs" "mm_block_allocated st2 ?r"
    using A1 bs1(1) h1 by simp_all
  have st2: "st2 = st'" using r(1) pl by simp
  have sz: "mm_block_size st' ?r = (if S - ?R < 16 then S else ?R)"
    using ok' by (rule place_split_size) (simp add: h' bs1(2))
  have "S - ?R < 16 \<Longrightarrow> S = ?R \<or> S = ?R + 8"
    using S8 R8 bs1(3) by presburger
  then have "mm_block_size st' ?r = ?R \<or> mm_block_size st' ?r = ?R + 8"
    unfolding sz by auto
  moreover have "?r \<in> addrs True (heap_blocks st') ?bs'"
    unfolding h' r(2) by simp
  ultimately show ?thesis
    unfolding e(1) using ok' r(3,4) st2 by (intro exI [of _ ?bs']) simp
qed

lemma mm_malloc_huge: "mm_malloc huge_request st = mm_malloc 8 st"
proof -
  have "to_int32 (uint huge_request) = 8" "huge_request \<noteq> 0"
    by (simp_all add: huge_request_def to_int32_def)
  moreover have "to_int32 (uint (8 :: size_t)) = 8"
    by (simp add: to_int32_def)
  ultimately show ?thesis
    by (simp add: mm_malloc_def)
qed

lemma demo_malloc3: "mm_malloc 8 demo_heap2 = Some (4144, demo_heap3)"
  unfolding demo_heap3_def by (rule Some_the [OF demo_heap3_facts(1,2)])

lemma demo_heap4_facts:
  "mm_malloc 8 demo_heap3 = Some (4160, demo_heap4)"
  "heap_ok demo_heap4 [(8, True), (16, True), (16, True), (16, True), (16, True)]"
  "mm_list demo_heap4 = []" "heap_blocks demo_heap4 = 4100"
proof -
  have n: "(8 :: size_t) \<noteq> 0" "uint (8 :: size_t) + 15 < 2 ^ 31" by simp_all
  have R: "(uint (8 :: size_t) + 15) div 8 * 8 = 16" by simp
  have ok: "heap_ok demo_heap3 ([(8, True), (16, True), (16, True), (16, True)] @ (16, False) # [])"
    using demo_heap3_facts(3) by simp
  have b: "4156 = heap_blocks demo_heap3 + total [(8, True), (16, True), (16, True), (16, True)]"
    by (simp add: demo_heap3_facts(5))
  have sz: "mm_block_size demo_heap3 4156 = 16"
    using block_facts(1) [OF ok refl b] .
  have ff: "find_fit 16 demo_heap3 = 4156" "(4156 :: int) \<noteq> NULL"
    by (simp_all add: find_fit_single [OF demo_heap3_facts(4)] sz NULL_def)
  have m: "mm_malloc 8 demo_heap3 =
      Some (fst (place 4156 16 demo_heap3) + 4, snd (place 4156 16 demo_heap3))"
    using mm_malloc_fit [OF n, of demo_heap3 4156] ff by (simp add: R)
  note p = place_exact [OF ok b, of 16]
  have 1: "fst (place 4156 16 demo_heap3) = 4156"
    using p(1) by (simp add: place_addr_def)
  have e: "demo_heap4 = snd (place 4156 16 demo_heap3)"
    by (simp add: demo_heap4_def m)
  show "mm_malloc 8 demo_heap3 = Some (4160, demo_heap4)"
    by (simp add: m 1 e)
  show "heap_ok demo_heap4 [(8, True), (16, True), (16, True), (16, True), (16, True)]"
    unfolding e using p(2) by (simp add: place_split_def)
  show "mm_list demo_heap4 = []"
    unfolding e using p(3) by (simp add: place_list_def demo_heap3_facts(4))
  show "heap_blocks demo_heap4 = 4100"
    unfolding e using p(4) by (simp add: demo_heap3_facts(5))
qed

lemma overrun_heap1_facts:
  "heap_ok overrun_heap1 [(8, True), (16, True), (16, False), (16, True), (16, True)]"
  "mm_list overrun_heap1 = [4124]" "heap_blocks overrun_heap1 = 4100"
proof -
  have ok: "heap_ok demo_heap4 ([(8, True), (16, True)] @ (16, True) # [(16, True), (16, True)])"
    using demo_heap4_facts(2) by simp
  have p: "4128 - 4 = heap_blocks demo_heap4 + total [(8, True), (16, True)]"
    by (simp add: demo_heap4_facts(4))
  note a = mm_free_exact [OF ok _ p, folded overrun_heap1_def]
  have a1: "coalesce_blocks [(8, True), (16, True)] 16 [(16, True), (16, True)] =
              [(8, True), (16, True), (16, False), (16, True), (16, True)]"
    by (simp add: coalesce_blocks_def prev_free_def next_free_def)
  have a2: "coalesce_list [(8, True), (16, True)] 16 [(16, True), (16, True)] b l = b # l" for b l
    by (simp add: coalesce_list_def prev_free_def next_free_def)
  show "heap_ok overrun_heap1 [(8, True), (16, True), (16, False), (16, True), (16, True)]"
    using a(1) by (simp add: a1)
  show "mm_list overrun_heap1 = [4124]"
    using a(2) by (simp add: a2 demo_heap4_facts(3))
  show "heap_blocks overrun_heap1 = 4100"
    using a(3) by (simp add: demo_heap4_facts(4))
qed

lemma overrun_heap2_facts:
  "mm_realloc 4112 16 overrun_heap1 = Some (4112, overrun_heap2)"
  "heap_ok overrun_heap2 [(8, True), (32, True), (16, True), (16, True)]"
  "mm_list overrun_heap2 = []" "heap_blocks overrun_heap2 = 4100"
  "mem overrun_heap2 4120 = pack 16 True" "mem overrun_heap2 4124 = pack 16 False"
proof -
  have ok: "heap_ok overrun_heap1 ([(8, True)] @ (16, True) # (16, False) # [(16, True), (16, True)])"
    using overrun_heap1_facts(1) by simp
  have b: "4112 - 4 = heap_blocks overrun_heap1 + total [(8, True)]"
    by (simp add: overrun_heap1_facts(3))
  have n: "16 - 8 < uint (16 :: size_t)" "uint (16 :: size_t) \<le> 16 + 16 - 8" by simp_all
  note r = mm_realloc_absorb [OF ok _ b n]
  let ?s = "overrun_heap1\<lparr>mem := set_tags (4112 - 4) (16 + 16) True (mem overrun_heap1),
                          mm_list := remove1 (4112 - 4 + 16) (mm_list overrun_heap1)\<rparr>"
  have m: "mm_realloc 4112 16 overrun_heap1 = Some (4112, ?s)"
    by (rule r(1)) simp
  have e: "overrun_heap2 = ?s"
    by (simp only: overrun_heap2_def m option.sel snd_conv)
  have ch: "chain (mem overrun_heap1) 4100 [(8, True), (16, True), (16, False), (16, True), (16, True)]"
    using overrun_heap1_facts(1) by (simp add: heap_ok_def blocks_ok_def overrun_heap1_facts(3))
  show "mm_realloc 4112 16 overrun_heap1 = Some (4112, overrun_heap2)"
    unfolding e by (rule m)
  show "heap_ok overrun_heap2 [(8, True), (32, True), (16, True), (16, True)]"
    unfolding e using r(2) by simp
  show "mm_list overrun_heap2 = []"
    unfolding e by (simp add: overrun_heap1_facts(2))
  show "heap_blocks overrun_heap2 = 4100"
    unfolding e by (simp add: overrun_heap1_facts(3))
  show "mem overrun_heap2 4120 = pack 16 True" "mem overrun_heap2 4124 = pack 16 False"
    unfolding e using ch by (simp_all add: set_tags_apply)
qed

lemma overrun_heap3_facts:
  "heap_ok overrun_heap3 [(8, True), (32, True), (16, False), (16, True)]"
  "mm_list overrun_heap3 = [4140]" "heap_blocks overrun_heap3 = 4100"
  "mem overrun_heap3 4120 = pack 16 True" "mem overrun_heap3 4124 = pack 16 False"
proof -
  have ok: "heap_ok overrun_heap2 ([(8, True), (32, True)] @ (16, True) # [(16, True)])"
    using overrun_heap2_facts(2) by simp
  have p: "4144 - 4 = heap_blocks overrun_heap2 + total [(8, True), (32, True)]"
    by (simp add: overrun_heap2_facts(4))
  note a = mm_free_exact [OF ok _ p, folded overrun_heap3_def]
  have a1: "coalesce_blocks [(8, True), (32, True)] 16 [(16, True)] =
              [(8, True), (32, True), (16, False), (16, True)]"
    by (simp add: coalesce_blocks_def prev_free_def next_free_def)
  have a2: "coalesce_list [(8, True), (32, True)] 16 [(16, True)] b l = b # l" for b l
    by (simp add: coalesce_list_def prev_free_def next_free_def)
  show "heap_ok overrun_heap3 [(8, True), (32, True), (16, False), (16, True)]"
    using a(1) by (simp add: a1)
  show "mm_list overrun_heap3 = [4140]"
    using a(2) by (simp add: a2 overrun_heap2_facts(3))
  show "heap_blocks overrun_heap3 = 4100"
    using a(3) by (simp add: overrun_heap2_facts(4))
  have ch: "chain (mem overrun_heap2) 4100 [(8, True), (32, True), (16, True), (16, True)]"
    using overrun_heap2_facts(2) by (simp add: heap_ok_def blocks_ok_def overrun_heap2_facts(4))
  have o: "mm_block_size overrun_heap2 4140 = 16" "mm_block_size overrun_heap2 (4140 - 4) = 32"
    "mm_block_size overrun_heap2 (4140 - 32) = 32" "mm_block_allocated overrun_heap2 (4140 - 32) = True"
    "mm_block_size overrun_heap2 (4140 + 16) = 16" "mm_block_allocated overrun_heap2 (4140 + 16) = True"
    using ch by (simp_all add: mm_block_size_def mm_block_allocated_def size_pack alloc_pack)
  have f: "free_coalesce 4140 overrun_heap2 =
     (if True then 4140 else 4140 - 32,
      overrun_heap2\<lparr>mem := set_tags (if True then 4140 else 4140 - 32)
                       (16 + (if True then 0 else 32) + (if True then 0 else 16)) False
                       (set_tags 4140 16 False (mem overrun_heap2)),
         mm_list := (if True then [4140] else []) @
                    (if True then mm_list overrun_heap2 else remove1 (4140 + 16) (mm_list overrun_heap2))\<rparr>)"
    by (rule free_coalesce_eq [OF o]) simp_all
  have e: "overrun_heap3 = overrun_heap2\<lparr>mem := set_tags 4140 16 False
        (set_tags 4140 16 False (mem overrun_heap2)), mm_list := 4140 # mm_list overrun_heap2\<rparr>"
    by (simp add: overrun_heap3_def mm_free_def NULL_def f)
  show "mem overrun_heap3 4120 = pack 16 True" "mem overrun_heap3 4124 = pack 16 False"
    by (simp_all add: e set_tags_apply overrun_heap2_facts(5,6))
qed


lemma mm_realloc_copy:
  assumes p: "p \<noteq> NULL" and n0: "n \<noteq> 0"
    and s: "mm_block_size st (p - 4) = s" "8 \<le> s" "s < 2 ^ 31"
    and big: "s - 8 < uint n"
    and nx: "mm_block_size st (p - 4 + s) = sn" "0 \<le> sn" "s + sn < 2 ^ 31" "s + sn - 8 < uint n"
    and m: "mm_malloc n st = Some (q, st1)" "q \<noteq> NULL"
  shows "mm_realloc p n st = Some (q, mm_free p (memcpy q p (s - 8) st1))"
proof -
  let ?b = "p - 4"
  have c1: "to_int32 (s - 8) = s - 8" "to_int32 (s + sn) = s + sn"
    using s nx by (simp_all add: to_int32_id)
  have c2: "uint (word_of_int (s - 8) :: size_t) = s - 8"
    "uint (word_of_int (s + sn) :: size_t) = s + sn"
    using s nx by (simp_all add: uint_size_t del: of_int_diff of_int_add)
  have "uint (8 :: size_t) \<le> uint (word_of_int (s + sn) :: size_t)"
    using s nx by (simp add: c2 del: of_int_diff of_int_add)
  then have c3: "uint ((word_of_int (s + sn) :: size_t) - 8) = s + sn - 8"
    by (simp add: uint_sub_lem [THEN iffD1] c2 del: of_int_diff of_int_add)
  have 1: "\<not> n \<le> word_of_int (to_int32 (mm_block_size st ?b - 8))"
    "\<not> word_of_int (to_int32 (mm_block_size st ?b - 8)) > n"
    using big by (simp_all add: word_le_def word_less_def s(1) c1 c2 del: of_int_diff of_int_add)
  have 2: "\<not> n \<le> word_of_int (to_int32 (mm_block_size st ?b + mm_block_size st (mm_block_next st ?b))) - 8"
    using nx(4) by (simp add: mm_block_next_def s(1) nx(1) c1 c3 word_le_def del: of_int_diff of_int_add)
  have tempp: "uint (word_of_int (to_int32 (uint (word_of_int (to_int32 (mm_block_size st ?b - 8)) :: size_t))) :: size_t) = s - 8"
    by (simp add: s(1) c1 c2 del: of_int_diff of_int_add)
  show ?thesis
    using p n0 1 2 tempp m
    by (simp add: mm_realloc_def Let_def del: of_int_diff of_int_add)
qed

lemma overrun_heap4_facts:
  "mm_realloc 4112 huge_request overrun_heap3 = Some (4144, overrun_heap4)"
  "mem overrun_heap4 4100 = pack 8 True" "mem overrun_heap4 4108 = pack 32 False"
  "mem overrun_heap4 4140 = pack 16 True" "mem overrun_heap4 4156 = pack 16 False"
  "mm_list overrun_heap4 = [4108]" "heap_blocks overrun_heap4 = 4100"
proof -
  let ?s1 = "overrun_heap3\<lparr>mem := set_tags 4140 16 True (mem overrun_heap3),
                          mm_list := remove1 4140 (mm_list overrun_heap3)\<rparr>"
  let ?s2 = "memcpy 4144 4112 24 ?s1"
  have ch: "chain (mem overrun_heap3) 4100 [(8, True), (32, True), (16, False), (16, True)]"
    using overrun_heap3_facts(1) by (simp add: heap_ok_def blocks_ok_def overrun_heap3_facts(3))
  then have t: "mem overrun_heap3 4100 = pack 8 True" "mem overrun_heap3 4104 = pack 8 True"
    "mem overrun_heap3 4108 = pack 32 True" "mem overrun_heap3 4140 = pack 16 False"
    by simp_all
  have n: "(8 :: size_t) \<noteq> 0" "uint (8 :: size_t) + 15 < 2 ^ 31" by simp_all
  have sz: "mm_block_size overrun_heap3 4140 = 16"
    by (simp add: mm_block_size_pack [OF t(4)])
  have ff: "find_fit 16 overrun_heap3 = 4140" "(4140 :: int) \<noteq> NULL"
    by (simp_all add: find_fit_single [OF overrun_heap3_facts(2)] sz NULL_def)
  have pl: "place 4140 16 overrun_heap3 = (4140, ?s1)"
    using place_eq [OF sz, of 16] by simp
  have "mm_malloc 8 overrun_heap3 = Some (4144, ?s1)"
    using mm_malloc_fit [OF n, of overrun_heap3 4140] ff by (simp add: pl)
  then have m: "mm_malloc huge_request overrun_heap3 = Some (4144, ?s1)"
    by (simp only: mm_malloc_huge)
  have h: "huge_request \<noteq> 0" "(32 :: int) - 8 < uint huge_request" "(32 :: int) + 16 - 8 < uint huge_request"
    by (simp_all add: huge_request_def)
  have "mm_realloc 4112 huge_request overrun_heap3 =
          Some (4144, mm_free 4112 (memcpy 4144 4112 (32 - 8) ?s1))"
  proof (rule mm_realloc_copy [where sn = 16])
    show "mm_block_size overrun_heap3 (4112 - 4) = 32"
      by (simp add: mm_block_size_pack [OF t(3)])
    show "mm_block_size overrun_heap3 (4112 - 4 + 32) = 16"
      by (simp add: sz)
    show "mm_malloc huge_request overrun_heap3 = Some (4144, ?s1)" by (rule m)
  qed (use h in \<open>simp_all add: NULL_def\<close>)
  then have r: "mm_realloc 4112 huge_request overrun_heap3 = Some (4144, mm_free 4112 ?s2)"
    by simp
  have e: "overrun_heap4 = mm_free 4112 ?s2"
    by (simp only: overrun_heap4_def r option.sel snd_conv)
  have o: "mm_block_size ?s2 4108 = 32" "mm_block_size ?s2 (4108 - 4) = 8"
    "mm_block_size ?s2 (4108 - 8) = 8" "mm_block_allocated ?s2 (4108 - 8) = True"
    "mm_block_size ?s2 (4108 + 32) = 16" "mm_block_allocated ?s2 (4108 + 32) = True"
    by (simp_all add: mm_block_size_def mm_block_allocated_def memcpy_def set_tags_apply t
        size_pack alloc_pack)
  have f: "free_coalesce 4108 ?s2 =
     (if True then 4108 else 4108 - 8,
      ?s2\<lparr>mem := set_tags (if True then 4108 else 4108 - 8)
                       (32 + (if True then 0 else 8) + (if True then 0 else 16)) False
                       (set_tags 4108 32 False (mem ?s2)),
         mm_list := (if True then [4108] else []) @
                    (if True then mm_list ?s2 else remove1 (4108 + 32) (mm_list ?s2))\<rparr>)"
    by (rule free_coalesce_eq [OF o]) simp_all
  have e2: "overrun_heap4 = ?s2\<lparr>mem := set_tags 4108 32 False (set_tags 4108 32 False (mem ?s2)),
                                 mm_list := 4108 # mm_list ?s2\<rparr>"
    by (simp add: e mm_free_def NULL_def f)
  show "mm_realloc 4112 huge_request overrun_heap3 = Some (4144, overrun_heap4)"
    unfolding e by (rule r)
  show "mem overrun_heap4 4100 = pack 8 True" "mem overrun_heap4 4108 = pack 32 False"
    "mem overrun_heap4 4140 = pack 16 True" "mem overrun_heap4 4156 = pack 16 False"
    by (simp_all add: e2 memcpy_def set_tags_apply t overrun_heap3_facts(5))
  show "mm_list overrun_heap4 = [4108]" "heap_blocks overrun_heap4 = 4100"
    by (simp_all add: e2 memcpy_def overrun_heap3_facts(2,3))
qed

section \<open>The claims\<close>

text \<open>
  C3: \<open>place\<close> on a block of size \<open>S\<close> for a request of \<open>R\<close> bytes (a positive multiple of
  8, at most \<open>S\<close>). If \<open>S - R < 16\<close> the whole block is allocated as it is and removed from
  the free list. Otherwise the block is split: if \<open>R \<ge> 75\<close> the allocated piece of \<open>R\<close>
  bytes is at the high end, and the free remainder of \<open>S - R\<close> bytes keeps the low
  address and its place in the free list, which is unchanged; if \<open>R < 75\<close> the allocated
  piece is at the low end and removed from the free list, and the free remainder at the
  high end is inserted at the head of the free list. The returned handle is the address
  of the allocated piece.
\<close>

theorem place_policy:
  assumes "mm_block_size st b = S" and "0 < R" and "R \<le> S" and "8 dvd R" and "S < 2 ^ 31"
  shows "place b R st =
     (if S - R < 16 then
        (b, st\<lparr>mem := set_tags b S True (mem st), mm_list := remove1 b (mm_list st)\<rparr>)
      else if 75 \<le> R then
        (b + (S - R),
         st\<lparr>mem := set_tags b (S - R) False (set_tags (b + (S - R)) R True (mem st))\<rparr>)
      else
        (b, st\<lparr>mem := set_tags (b + R) (S - R) False (set_tags b R True (mem st)),
               mm_list := (b + R) # remove1 b (mm_list st)\<rparr>))"
  using assms by (simp add: place_eq)

theorem place_policy_witness:
  "mm_block_size demo_heap 4108 = 64 \<and>
   place 4108 16 demo_heap =
     (4108, demo_heap\<lparr>mem := set_tags 4124 48 False (set_tags 4108 16 True (mem demo_heap)),
                      mm_list := 4124 # remove1 4108 (mm_list demo_heap)\<rparr>)"
proof -
  have h: "mm_block_size demo_heap 4108 = 64"
    unfolding demo_heap_def by code_simp
  show ?thesis
    using h place_policy [OF h, of 16] by simp
qed

text \<open>
  C8: for a live pointer \<open>p\<close> (the payload of an allocated block of a well-formed heap)
  and a request \<open>n > 0\<close> of at most the payload capacity of its block, the block size
  minus 8, \<open>mm_realloc p n\<close> returns \<open>p\<close> and leaves the whole state as it is: the store
  with every tag and payload byte, the free list and the globals.
\<close>

theorem resize_within_capacity:
  assumes "heap_ok st bs" and "p - 4 \<in> addrs True (heap_blocks st) bs"
    and "n \<noteq> 0" and "uint n \<le> mm_block_size st (p - 4) - 8"
  shows "mm_realloc p n st = Some (p, st)"
  using assms by (rule mm_realloc_fits)

theorem resize_within_capacity_witness:
  "heap_ok demo_heap1 [(8, True), (16, True), (48, False)] \<and>
   mm_realloc 4112 8 demo_heap1 = Some (4112, demo_heap1)"
proof -
  have h1: "heap_ok demo_heap1 [(8, True), (16, True), (48, False)]"
    by (rule demo_heap1_ok)
  have h2: "4112 - 4 \<in> addrs True (heap_blocks demo_heap1) [(8, True), (16, True), (48, False)]"
    unfolding demo_heap1_def demo_heap_def by code_simp
  have h3: "(8 :: size_t) \<noteq> 0" by simp
  have h4: "uint (8 :: size_t) \<le> mm_block_size demo_heap1 (4112 - 4) - 8"
    unfolding demo_heap1_def demo_heap_def by code_simp
  show ?thesis
    using h1 resize_within_capacity [OF h1 h2 h3 h4] by simp
qed

text \<open>
  C7: for a live pointer \<open>p\<close> whose physical next block is free, and a request \<open>n\<close> larger
  than the payload capacity of the block of \<open>p\<close> but at most the combined size of the two
  blocks minus 8, \<open>mm_realloc p n\<close> returns \<open>p\<close>; the next block is removed from the free
  list, the block of \<open>p\<close> is one allocated block of the combined size in a heap that is
  well formed again, and the region has not grown (\<open>mem_brk\<close> is unchanged: \<open>mem_sbrk\<close> is
  not called on this path).
\<close>

theorem resize_absorbs_next:
  assumes ok: "heap_ok st bs" and live: "p - 4 \<in> addrs True (heap_blocks st) bs"
    and np: "p - 4 \<noteq> heap_blocks st"
    and nf: "\<not> mm_block_allocated st (mm_block_next st (p - 4))"
    and n: "mm_block_size st (p - 4) - 8 < uint n"
      "uint n \<le> mm_block_size st (p - 4) + mm_block_size st (mm_block_next st (p - 4)) - 8"
  shows "\<exists>st' bs'. mm_realloc p n st = Some (p, st') \<and> heap_ok st' bs' \<and>
           p - 4 \<in> addrs True (heap_blocks st') bs' \<and>
           mm_block_allocated st' (p - 4) \<and>
           mm_block_size st' (p - 4) =
             mm_block_size st (p - 4) + mm_block_size st (mm_block_next st (p - 4)) \<and>
           mm_list st' = remove1 (mm_block_next st (p - 4)) (mm_list st) \<and>
           mm_block_next st (p - 4) \<notin> set (mm_list st') \<and>
           mem_brk st' = mem_brk st"
proof -
  let ?h = "heap_blocks st"
  obtain xs s ys where bs: "bs = xs @ (s, True) # ys" "p - 4 = ?h + total xs"
    using addrs_split [OF live] by blast
  note f = block_facts [OF ok bs]
  have xs: "xs \<noteq> []" using np bs by auto
  have nx: "mm_block_next st (p - 4) = p - 4 + s"
    by (simp add: mm_block_next_def f(1))
  obtain sn ys' where ys: "ys = (sn, False) # ys'"
    using f(8,9) nf nx by (cases ys) auto
  have sn: "mm_block_size st (p - 4 + s) = sn" "8 \<le> sn" "8 dvd sn"
    using f(9) [OF ys] by simp_all
  let ?st' = "st\<lparr>mem := set_tags (p - 4) (s + sn) True (mem st),
                  mm_list := remove1 (p - 4 + s) (mm_list st)\<rparr>"
  let ?bs' = "xs @ (s + sn, True) # ys'"
  have pre: "heap_ok st (xs @ (s, True) # (sn, False) # ys')"
    using ok bs ys by simp
  have n': "s - 8 < uint n" "uint n \<le> s + sn - 8"
    using n by (simp_all add: nx f(1) sn)
  note ab = mm_realloc_absorb [OF pre xs bs(2) n']
  have "distinct (mm_list st)" using ok by (simp add: heap_ok_def free_list_ok_def)
  then have "p - 4 + s \<notin> set (remove1 (p - 4 + s) (mm_list st))" by simp
  moreover have "mm_block_size ?st' (p - 4) = s + sn" "mm_block_allocated ?st' (p - 4)"
    using f sn by (simp_all add: mm_block_size_def mm_block_allocated_def set_tags_apply size_pack alloc_pack)
  moreover have "p - 4 \<in> addrs True ?h ?bs'"
    by (simp add: addrs_append bs(2))
  ultimately show ?thesis
    using ab(1,2)
    by (intro exI [of _ ?st'] exI [of _ ?bs']) (simp add: nx f(1) sn)
qed

theorem resize_absorbs_next_witness:
  "heap_ok demo_heap1 [(8, True), (16, True), (48, False)] \<and>
   (\<exists>st' bs'. mm_realloc 4112 20 demo_heap1 = Some (4112, st') \<and> heap_ok st' bs' \<and>
      mm_block_size st' 4108 = 64 \<and> mm_list st' = [] \<and> mem_brk st' = 4176)"
proof -
  have h1: "heap_ok demo_heap1 [(8, True), (16, True), (48, False)]"
    by (rule demo_heap1_ok)
  have h2: "4112 - 4 \<in> addrs True (heap_blocks demo_heap1) [(8, True), (16, True), (48, False)]"
    unfolding demo_heap1_def demo_heap_def by code_simp
  have h3: "4112 - 4 \<noteq> heap_blocks demo_heap1"
    unfolding demo_heap1_def demo_heap_def by code_simp
  have h4: "\<not> mm_block_allocated demo_heap1 (mm_block_next demo_heap1 (4112 - 4))"
    unfolding demo_heap1_def demo_heap_def by code_simp
  have h5: "mm_block_size demo_heap1 (4112 - 4) - 8 < uint (20 :: size_t)"
    unfolding demo_heap1_def demo_heap_def by code_simp
  have h6: "uint (20 :: size_t) \<le> mm_block_size demo_heap1 (4112 - 4)
              + mm_block_size demo_heap1 (mm_block_next demo_heap1 (4112 - 4)) - 8"
    unfolding demo_heap1_def demo_heap_def by code_simp
  have v: "mm_block_size demo_heap1 4108 = 16" "mm_block_next demo_heap1 4108 = 4124"
    "mm_block_size demo_heap1 4124 = 48" "mm_list demo_heap1 = [4124]" "mem_brk demo_heap1 = 4176"
    unfolding demo_heap1_def demo_heap_def by code_simp+
  show ?thesis
    using h1 resize_absorbs_next [OF h1 h2 h3 h4 h5 h6] by (auto simp: v)
qed

text \<open>
  C10: \<open>mm_malloc\<close> passes its \<open>size_t\<close> request to \<open>required_block_size\<close> as an \<open>int\<close>,
  and the block it returns has the size computed from the converted value:
  \<^item> for every request \<open>n\<close> with \<open>n + 15 < 2 ^ 31\<close> the size computed is \<open>n + 8\<close> rounded up to a
    multiple of 8;
  \<^item> for every request \<open>n > 0\<close> whose computed size \<open>R\<close> is positive, a \<open>mm_malloc n\<close> that
    returns in a well-formed heap returns the payload of a block that was not allocated
    before, is allocated afterwards, and has \<open>R\<close> or \<open>R + 8\<close> bytes (a free block that exceeds
    \<open>R\<close> by 8 bytes is taken whole), so its payload capacity is smaller than \<open>2 ^ 31\<close>,
    whatever \<open>n\<close> is;
  \<^item> \<open>huge_request\<close>, which is \<open>2 ^ 32 + 8\<close>, is converted to 8: \<open>mm_malloc huge_request\<close> is
    \<open>mm_malloc 8\<close> in every state, and in \<open>demo_heap\<close> it returns the payload of the block at
    4108, which was free and is now allocated with 16 bytes, a payload capacity of 8 bytes.
\<close>

theorem required_block_size_int:
  "(\<forall>n :: size_t. uint n + 15 < 2 ^ 31 \<longrightarrow>
      required_block_size (to_int32 (uint n)) = (uint n + 8 + 7) div 8 * 8) \<and>
   (\<forall>(n :: size_t) st bs p st'.
      n \<noteq> 0 \<and> 0 < required_block_size (to_int32 (uint n)) \<and> heap_ok st bs \<and>
      mm_malloc n st = Some (p, st') \<longrightarrow>
        p - 4 \<notin> addrs True (heap_blocks st) bs \<and>
        (\<exists>bs'. heap_ok st' bs' \<and> p - 4 \<in> addrs True (heap_blocks st') bs') \<and>
        mm_block_allocated st' (p - 4) \<and>
        (mm_block_size st' (p - 4) = required_block_size (to_int32 (uint n)) \<or>
         mm_block_size st' (p - 4) = required_block_size (to_int32 (uint n)) + 8) \<and>
        mm_block_size st' (p - 4) - 8 < 2 ^ 31) \<and>
   2 ^ 31 \<le> uint huge_request \<and> to_int32 (uint huge_request) = 8 \<and>
   required_block_size (to_int32 (uint huge_request)) = 16 \<and>
   (\<forall>st. mm_malloc huge_request st = mm_malloc 8 st) \<and>
   heap_ok demo_heap [(8, True), (64, False)] \<and> \<not> mm_block_allocated demo_heap 4108 \<and>
   (\<exists>st'. mm_malloc huge_request demo_heap = Some (4112, st') \<and>
      heap_ok st' [(8, True), (16, True), (48, False)] \<and>
      mm_block_allocated st' 4108 \<and> mm_block_size st' 4108 = 16 \<and>
      mm_block_size st' 4108 - 8 < uint huge_request)"
proof -
  have a: "required_block_size (to_int32 (uint n)) = (uint n + 8 + 7) div 8 * 8"
    if "uint n + 15 < 2 ^ 31" for n :: size_t
    using required_block_size_eq [of "uint n"] that by simp
  have b: "p - 4 \<notin> addrs True (heap_blocks st) bs \<and>
        (\<exists>bs'. heap_ok st' bs' \<and> p - 4 \<in> addrs True (heap_blocks st') bs') \<and>
        mm_block_allocated st' (p - 4) \<and>
        (mm_block_size st' (p - 4) = required_block_size (to_int32 (uint n)) \<or>
         mm_block_size st' (p - 4) = required_block_size (to_int32 (uint n)) + 8) \<and>
        mm_block_size st' (p - 4) - 8 < 2 ^ 31"
    if "n \<noteq> 0 \<and> 0 < required_block_size (to_int32 (uint n)) \<and> heap_ok st bs \<and>
      mm_malloc n st = Some (p, st')" for n :: size_t and st bs p st'
  proof -
    from that have h: "heap_ok st bs" "n \<noteq> 0" "0 < required_block_size (to_int32 (uint n))"
      "mm_malloc n st = Some (p, st')" by simp_all
    from mm_malloc_block [OF h] obtain bs' where r: "heap_ok st' bs'"
      "p - 4 \<in> addrs True (heap_blocks st') bs'" "p - 4 \<notin> addrs True (heap_blocks st) bs"
      "mm_block_allocated st' (p - 4)"
      "mm_block_size st' (p - 4) = required_block_size (to_int32 (uint n)) \<or>
       mm_block_size st' (p - 4) = required_block_size (to_int32 (uint n)) + 8"
      by blast
    have "mm_block_size st' (p - 4) - 8 < 2 ^ 31"
      using r(5) required_block_size_less [of "to_int32 (uint n)"] by auto
    then show ?thesis using r by blast
  qed
  have c: "2 ^ 31 \<le> uint huge_request" "to_int32 (uint huge_request) = 8"
    by (simp_all add: huge_request_def to_int32_def)
  have "required_block_size 8 = 16"
    by code_simp
  then have d: "required_block_size (to_int32 (uint huge_request)) = 16"
    by (simp only: c(2))
  have e: "\<not> mm_block_allocated demo_heap 4108"
    using mm_block_allocated_pack [OF demo_heap_mem(3)] by simp
  have ok1: "heap_ok demo_heap1 ([(8, True)] @ (16, True) # [(48, False)])"
    using demo_heap1_facts(3) by simp
  have b1: "4108 = heap_blocks demo_heap1 + total [(8, True)]"
    by (simp add: demo_heap1_facts(5))
  note f = block_facts(1,2) [OF ok1 refl b1]
  have g: "mm_malloc huge_request demo_heap = Some (4112, demo_heap1)"
    by (simp only: mm_malloc_huge demo_malloc1)
  have "\<exists>st'. mm_malloc huge_request demo_heap = Some (4112, st') \<and>
      heap_ok st' [(8, True), (16, True), (48, False)] \<and>
      mm_block_allocated st' 4108 \<and> mm_block_size st' 4108 = 16 \<and>
      mm_block_size st' 4108 - 8 < uint huge_request"
    using g demo_heap1_facts(3) f c(1) by (intro exI [of _ demo_heap1]) simp
  moreover have "\<forall>n :: size_t. uint n + 15 < 2 ^ 31 \<longrightarrow>
      required_block_size (to_int32 (uint n)) = (uint n + 8 + 7) div 8 * 8"
    by (intro allI impI) (rule a)
  moreover have "\<forall>(n :: size_t) st bs p st'.
      n \<noteq> 0 \<and> 0 < required_block_size (to_int32 (uint n)) \<and> heap_ok st bs \<and>
      mm_malloc n st = Some (p, st') \<longrightarrow>
        p - 4 \<notin> addrs True (heap_blocks st) bs \<and>
        (\<exists>bs'. heap_ok st' bs' \<and> p - 4 \<in> addrs True (heap_blocks st') bs') \<and>
        mm_block_allocated st' (p - 4) \<and>
        (mm_block_size st' (p - 4) = required_block_size (to_int32 (uint n)) \<or>
         mm_block_size st' (p - 4) = required_block_size (to_int32 (uint n)) + 8) \<and>
        mm_block_size st' (p - 4) - 8 < 2 ^ 31"
    by (intro allI impI) (rule b)
  moreover have "\<forall>st. mm_malloc huge_request st = mm_malloc 8 st"
    by (intro allI) (rule mm_malloc_huge)
  ultimately show ?thesis
    using c d e demo_heap_facts(1) by (intro conjI)
qed

theorem required_block_size_int_witness:
  "uint (100 :: size_t) + 15 < 2 ^ 31 \<and>
   required_block_size (to_int32 (uint (100 :: size_t))) = 112 \<and>
   (8 :: size_t) \<noteq> 0 \<and> 0 < required_block_size (to_int32 (uint (8 :: size_t))) \<and>
   heap_ok demo_heap [(8, True), (64, False)] \<and>
   mm_malloc 8 demo_heap = Some (4112, demo_heap1) \<and>
   mm_block_allocated demo_heap1 (4112 - 4) \<and>
   (mm_block_size demo_heap1 (4112 - 4) = 16 \<or> mm_block_size demo_heap1 (4112 - 4) = 16 + 8)"
proof -
  have r: "required_block_size (to_int32 8) = 16"
    using required_block_size_eq [of 8] by simp
  have h: "(8 :: size_t) \<noteq> 0 \<and> 0 < required_block_size (to_int32 (uint (8 :: size_t))) \<and>
     heap_ok demo_heap [(8, True), (64, False)] \<and>
     mm_malloc 8 demo_heap = Some (4112, demo_heap1)"
    using demo_heap_facts(1) demo_malloc1 by (simp add: r)
  note t = required_block_size_int
  note t1 = t [THEN conjunct1, THEN spec, of 100]
  note t2 = t [THEN conjunct2, THEN conjunct1, THEN spec, THEN spec, THEN spec, THEN spec,
      THEN spec, THEN mp, OF h]
  have "required_block_size (to_int32 (uint (100 :: size_t))) = 112"
    using t1 by simp
  then show ?thesis
    using h t2 by (simp add: r)
qed

text \<open>
  C1: \<open>mm_malloc\<close> searches the free list and, when no fit is found, extends the heap by
  the larger of the required block size and 512 bytes and searches again. The claim is
  that it returns \<open>NULL\<close> when the backing store fails. The code does not: the loop
  ignores the result of \<open>extend_heap\<close>, so when \<open>mem_sbrk\<close> fails the state is unchanged,
  the next search fails as well, and the loop runs forever. In \<open>tiny_heap\<close>, the heap after
  \<open>mm_init\<close> on a store of 80 bytes, no free block fits a request of 100 bytes, \<open>mem_sbrk\<close>
  fails, and \<open>mm_malloc 100\<close> does not return.
\<close>

theorem malloc_loops_forever:
  "find_fit 112 tiny_heap = NULL \<and> fst (mem_sbrk 512 tiny_heap) = - 1 \<and>
   mm_malloc 100 tiny_heap = None"
proof -
  have r: "required_block_size (to_int32 100) = 112"
    by code_simp
  have ff: "find_fit 112 tiny_heap = NULL"
    unfolding tiny_heap_def by code_simp
  have sb: "fst (mem_sbrk 512 tiny_heap) = - 1"
    unfolding tiny_heap_def by code_simp
  have "mem_max_addr tiny_heap < mem_brk tiny_heap + 512"
    unfolding tiny_heap_def by code_simp
  then have "snd (extend_heap (if 512 < (112 :: int) then 112 else 512) tiny_heap) = tiny_heap"
    by (simp add: extend_heap_fail)
  from malloc_loop_diverges [OF ff this] have "malloc_loop 112 NULL tiny_heap = None" .
  then have "mm_malloc 100 tiny_heap = None"
    by (simp add: mm_malloc_def r ff)
  then show ?thesis using ff sb by simp
qed

text \<open>
  C4: \<open>mm_init\<close> resets the free list, writes the prologue and the epilogue and extends the
  heap once. The claim is that it reports a failure when \<open>mem_sbrk\<close> fails in either
  step. The code reports the failure of the first step only: on a store of 40 bytes the
  first request (16 bytes) succeeds, the extension by 64 bytes fails and leaves the heap
  without a free block, and \<open>mm_init\<close> returns 0 all the same.
\<close>

theorem init_ignores_failed_extension:
  "fst (mm_init (fresh_store 4096 40)) = 0 \<and>
   mem_brk (snd (mm_init (fresh_store 4096 40))) = 4096 + 16 \<and>
   mm_list (snd (mm_init (fresh_store 4096 40))) = [] \<and>
   fst (mem_sbrk 64 (snd (mm_init (fresh_store 4096 40)))) = - 1"
  by code_simp

text \<open>
  C2 (amended): for every \<open>mm_malloc n\<close> with \<open>n > 0\<close> and \<open>n + 15 < 2 ^ 31\<close> that returns
  in a well-formed heap, the pointer returned is not \<open>NULL\<close>, is 8-byte aligned and is 4
  bytes past the header of an allocated block of the new heap; the size of that block is
  at least \<open>n + 8\<close> rounded up to a multiple of 8, so its payload capacity, the size
  minus 8, is at least \<open>n\<close>.
\<close>

theorem malloc_aligned_capacity:
  assumes "heap_ok st bs" and "n \<noteq> 0" and "uint n + 15 < 2 ^ 31"
    and "mm_malloc n st = Some (p, st')"
  shows "p \<noteq> NULL \<and> p mod 8 = 0 \<and>
         (\<exists>bs'. heap_ok st' bs' \<and> p - 4 \<in> addrs True (heap_blocks st') bs') \<and>
         mm_block_allocated st' (p - 4) \<and>
         (uint n + 8 + 7) div 8 * 8 \<le> mm_block_size st' (p - 4) \<and>
         uint n \<le> mm_block_size st' (p - 4) - 8"
proof -
  from mm_malloc_heap_ok [OF assms]
  obtain bs' where "heap_ok st' bs' \<and>
    addrs True (heap_blocks st) bs' = insert (p - 4) (addrs True (heap_blocks st) bs) \<and>
    p - 4 \<notin> addrs True (heap_blocks st) bs \<and>
    heap_blocks st < p - 4 \<and> p mod 8 = 0 \<and>
    (uint n + 15) div 8 * 8 \<le> mm_block_size st' (p - 4) \<and>
    mm_block_allocated st' (p - 4) \<and>
    heap_blocks st' = heap_blocks st \<and> mem_max_addr st' = mem_max_addr st" ..
  then have r: "heap_ok st' bs'"
    "addrs True (heap_blocks st) bs' = insert (p - 4) (addrs True (heap_blocks st) bs)"
    "heap_blocks st < p - 4" "p mod 8 = 0"
    "(uint n + 15) div 8 * 8 \<le> mm_block_size st' (p - 4)"
    "mm_block_allocated st' (p - 4)" "heap_blocks st' = heap_blocks st"
    by simp_all
  have "0 < heap_blocks st" using assms(1) by (simp add: heap_ok_def blocks_ok_def)
  then have "p \<noteq> NULL" using r(3) by (simp add: NULL_def)
  moreover have "p - 4 \<in> addrs True (heap_blocks st') bs'"
    using r(2,7) by simp
  moreover have "uint n + 8 \<le> (uint n + 15) div 8 * 8" by presburger
  moreover have "uint n + 8 + 7 = uint n + 15" by simp
  ultimately show ?thesis using r(1,4,5,6) by (simp only:) auto
qed

theorem malloc_aligned_capacity_witness:
  "heap_ok demo_heap [(8, True), (64, False)] \<and>
   mm_malloc 8 demo_heap \<noteq> None \<and>
   fst (the (mm_malloc 8 demo_heap)) mod 8 = 0 \<and>
   uint (8 :: size_t) \<le>
     mm_block_size (snd (the (mm_malloc 8 demo_heap))) (fst (the (mm_malloc 8 demo_heap)) - 4) - 8"
proof -
  let ?r = "mm_malloc 8 demo_heap"
  have h2: "(8 :: size_t) \<noteq> 0" by simp
  have h3: "uint (8 :: size_t) + 15 < 2 ^ 31" by simp
  have 1: "?r \<noteq> None"
    unfolding demo_heap_def by code_simp
  then have h4: "?r = Some (fst (the ?r), snd (the ?r))" by auto
  from malloc_aligned_capacity [OF demo_heap_ok h2 h3 h4]
  show ?thesis
    using demo_heap_ok 1 by blast
qed

text \<open>
  The claim as stated, for every \<open>n > 0\<close>, fails for \<open>huge_request\<close>: \<open>mm_malloc\<close> returns
  a block of 16 bytes.
\<close>

theorem malloc_capacity_counterexample:
  "heap_ok demo_heap [(8, True), (64, False)] \<and> huge_request \<noteq> 0 \<and>
   mm_malloc huge_request demo_heap \<noteq> None \<and>
   fst (the (mm_malloc huge_request demo_heap)) \<noteq> NULL \<and>
   mm_block_size (snd (the (mm_malloc huge_request demo_heap)))
     (fst (the (mm_malloc huge_request demo_heap)) - 4) - 8 < uint huge_request"
proof -
  have "huge_request \<noteq> 0" "mm_malloc huge_request demo_heap \<noteq> None"
    "fst (the (mm_malloc huge_request demo_heap)) \<noteq> NULL"
    "mm_block_size (snd (the (mm_malloc huge_request demo_heap)))
       (fst (the (mm_malloc huge_request demo_heap)) - 4) - 8 < uint huge_request"
    unfolding demo_heap_def huge_request_def by code_simp+
  then show ?thesis using demo_heap_ok by simp
qed

text \<open>
  C9 (amended): in every state reached from \<open>mm_init\<close> by calls of \<open>mm_malloc\<close>, \<open>mm_free\<close>
  and \<open>mm_realloc\<close> on live pointers, with requests \<open>n\<close> such that \<open>n + 15 < 2 ^ 31\<close>, the
  heap has a layout of blocks such that no block is in the free list twice, the free list
  holds blocks of the layout only, and a block of the layout is in the free list if and
  only if its allocation bit is false.
\<close>

theorem free_list_invariant:
  assumes "reach small_request st L"
  shows "\<exists>bs. blocks_ok st bs \<and> distinct (mm_list st) \<and>
           set (mm_list st) \<subseteq> addrs False (heap_blocks st) bs \<union> addrs True (heap_blocks st) bs \<and>
           (\<forall>b \<in> addrs False (heap_blocks st) bs \<union> addrs True (heap_blocks st) bs.
              (b \<in> set (mm_list st)) = (\<not> mm_block_allocated st b))"
proof -
  from reach_heap_ok [OF assms] obtain bs where ok: "heap_ok st bs" by blast
  then have "blocks_ok st bs" "distinct (mm_list st)"
    "set (mm_list st) = addrs False (heap_blocks st) bs"
    by (simp_all add: heap_ok_def free_list_ok_def)
  moreover have "\<And>b. b \<in> addrs False (heap_blocks st) bs \<Longrightarrow> \<not> mm_block_allocated st b"
    "\<And>b. b \<in> addrs True (heap_blocks st) bs \<Longrightarrow> mm_block_allocated st b"
    using addrs_allocated [OF ok] by auto
  ultimately show ?thesis by (intro exI [of _ bs]) auto
qed

theorem free_list_invariant_witness:
  "reach small_request demo_heap1 {4112} \<and>
   (\<exists>bs. blocks_ok demo_heap1 bs \<and> distinct (mm_list demo_heap1) \<and>
      set (mm_list demo_heap1) \<subseteq> addrs False (heap_blocks demo_heap1) bs \<union> addrs True (heap_blocks demo_heap1) bs \<and>
      (\<forall>b \<in> addrs False (heap_blocks demo_heap1) bs \<union> addrs True (heap_blocks demo_heap1) bs.
         (b \<in> set (mm_list demo_heap1)) = (\<not> mm_block_allocated demo_heap1 b)))"
proof -
  have "mm_malloc 8 demo_heap \<noteq> None" "fst (the (mm_malloc 8 demo_heap)) = 4112"
    unfolding demo_heap_def by code_simp+
  then have m: "mm_malloc 8 demo_heap = Some (4112, demo_heap1)"
    unfolding demo_heap1_def by (metis option.collapse prod.collapse)
  have "small_request 8" by (simp add: small_request_def)
  from reach.malloc [where ok = small_request, OF demo_heap_reach this m]
  have r: "reach small_request demo_heap1 {4112}" by simp
  show ?thesis
    using r free_list_invariant [OF r] by simp
qed

text \<open>
  C5: the scenario \<open>mm_init\<close>, \<open>p = mm_malloc 100\<close>, \<open>mm_free p\<close>, \<open>mm_malloc 100\<close>, on any
  backing store on which \<open>mm_init\<close> returns 0. The first \<open>mm_malloc\<close> returns exactly when
  the store has room for the 592 bytes that the heap then takes. When it returns \<open>p\<close>, the
  second \<open>mm_malloc\<close> returns the same pointer \<open>p\<close>, and the region does not grow after the
  first \<open>mm_malloc\<close>: \<open>mem_brk\<close> is the same after \<open>mm_free\<close> and after the second
  \<open>mm_malloc\<close>.
\<close>

theorem allocate_free_allocate:
  assumes st0: "store_ok st0" and i: "mm_init st0 = (0, s0)"
  shows "(mm_malloc 100 s0 \<noteq> None) = (mem_brk st0 + 592 \<le> mem_max_addr st0) \<and>
         (\<forall>p s1. mm_malloc 100 s0 = Some (p, s1) \<longrightarrow>
            (\<exists>s3. mm_malloc 100 (mm_free p s1) = Some (p, s3) \<and>
                  mem_brk (mm_free p s1) = mem_brk s1 \<and> mem_brk s3 = mem_brk s1))"
proof (cases "mem_brk st0 + 592 \<le> mem_max_addr st0")
  case False
  then have "mm_malloc 100 s0 = None"
    using scenario_no_room [OF st0 _ i] by simp
  then show ?thesis using False by simp
next
  case True
  have s0: "s0 = snd (mm_init st0)" using i by simp
  from scenario_first_malloc [OF st0 True]
  obtain s1' where m: "mm_malloc 100 s0 = Some (mem_brk st0 + 480, s1')"
    and f: "heap_ok s1' [(8, True), (464, False), (112, True)]"
      "mm_list s1' = [(mem_brk st0 + 4) + 8]" "mem_brk st0 + 480 = (mem_brk st0 + 4) + 476"
      "heap_blocks s1' = mem_brk st0 + 4"
    by (auto simp: s0)
  have "\<exists>s3. mm_malloc 100 (mm_free (mem_brk st0 + 480) s1') = Some (mem_brk st0 + 480, s3) \<and>
          mem_brk (mm_free (mem_brk st0 + 480) s1') = mem_brk s1' \<and> mem_brk s3 = mem_brk s1'"
    using f by (rule scenario_second_malloc)
  then show ?thesis using True m by simp
qed

theorem allocate_free_allocate_witness:
  "store_ok (fresh_store 4096 1048576) \<and>
   mm_init (fresh_store 4096 1048576) = (0, demo_heap) \<and>
   mm_malloc 100 demo_heap \<noteq> None \<and>
   (\<exists>s3. mm_malloc 100 (mm_free (fst (the (mm_malloc 100 demo_heap)))
                                 (snd (the (mm_malloc 100 demo_heap))))
           = Some (fst (the (mm_malloc 100 demo_heap)), s3))"
proof -
  let ?r = "mm_malloc 100 demo_heap"
  have h1: "store_ok (fresh_store 4096 1048576)"
    by (simp add: store_ok_def fresh_store_def)
  have c: "mem_brk (fresh_store 4096 1048576) + 592 \<le> mem_max_addr (fresh_store 4096 1048576)"
    by (simp add: fresh_store_def)
  note t = allocate_free_allocate [OF h1 demo_heap_init]
  have 1: "?r \<noteq> None"
    using t [THEN conjunct1] c by simp
  then have h3: "?r = Some (fst (the ?r), snd (the ?r))" by auto
  from t [THEN conjunct2, THEN spec, THEN spec, THEN mp, OF h3]
  show ?thesis
    using h1 demo_heap_init 1 by blast
qed

text \<open>
  C6 (amended): two physically adjacent allocated blocks of sizes \<open>s1\<close> and \<open>s2\<close>, at
  \<open>p1 - 4\<close> and \<open>p2 - 4\<close>, between the blocks \<open>xs\<close> and the blocks \<open>ys\<close> of a well-formed heap,
  are freed in either order. In both orders the result is the heap in which one block of
  \<open>s1 + s2\<close> bytes was freed: a well-formed heap with one free block \<open>b\<close> of \<open>S\<close> bytes in
  the place of the two blocks and of their outer neighbours that were free, where \<open>S\<close> is
  \<open>s1 + s2\<close> plus the sizes of the outer neighbours that were free, and \<open>b\<close> is the block
  before the pair if it was free and the lower block of the pair otherwise. The second
  \<open>free_coalesce\<close> returns \<open>b\<close>: the address of a predecessor when the predecessor is
  free, and the address of the block itself when only its next neighbour is free. When
  both outer neighbours are allocated, \<open>S\<close> is exactly \<open>s1 + s2\<close>, \<open>b\<close> is the lower block,
  and \<open>b\<close> is the new head of the free list. Lemma \<open>free_coalesce_heap_ok\<close> is the general
  statement of the four cases.
\<close>

theorem coalesce_adjacent_pair:
  assumes ok: "heap_ok st (xs @ (s1, True) # (s2, True) # ys)" and xs: "xs \<noteq> []"
    and p1: "p1 - 4 = heap_blocks st + total xs" and p2: "p2 = p1 + s1"
    and b: "b = (if prev_free xs then p1 - 4 - fst (last xs) else p1 - 4)"
    and S: "S = (if prev_free xs then fst (last xs) else 0) + (s1 + s2) +
                (if next_free ys then fst (hd ys) else 0)"
  shows "heap_ok (mm_free p2 (mm_free p1 st)) (coalesce_blocks xs (s1 + s2) ys) \<and>
         heap_ok (mm_free p1 (mm_free p2 st)) (coalesce_blocks xs (s1 + s2) ys) \<and>
         mm_block_size (mm_free p2 (mm_free p1 st)) b = S \<and>
         mm_block_size (mm_free p1 (mm_free p2 st)) b = S \<and>
         \<not> mm_block_allocated (mm_free p2 (mm_free p1 st)) b \<and>
         \<not> mm_block_allocated (mm_free p1 (mm_free p2 st)) b \<and>
         mm_list (mm_free p2 (mm_free p1 st)) = coalesce_list xs (s1 + s2) ys (p1 - 4) (mm_list st) \<and>
         mm_list (mm_free p1 (mm_free p2 st)) = coalesce_list xs (s1 + s2) ys (p1 - 4) (mm_list st) \<and>
         fst (free_coalesce (p2 - 4) (mm_free p1 st)) = b \<and>
         fst (free_coalesce (p1 - 4) (mm_free p2 st)) = b \<and>
         (\<not> prev_free xs \<and> \<not> next_free ys \<longrightarrow>
            b = p1 - 4 \<and> S = s1 + s2 \<and>
            coalesce_blocks xs (s1 + s2) ys = xs @ (s1 + s2, False) # ys \<and>
            coalesce_list xs (s1 + s2) ys (p1 - 4) (mm_list st) = (p1 - 4) # mm_list st)"
proof -
  note r1 = pair_low_general [OF ok xs p1 p2]
  note r2 = pair_high_general [OF ok xs p1 p2]
  have b1: "p1 - 4 = heap_blocks (mm_free p2 (mm_free p1 st)) + total xs"
    unfolding r1(3) by (rule p1)
  have b2: "p1 - 4 = heap_blocks (mm_free p1 (mm_free p2 st)) + total xs"
    unfolding r2(3) by (rule p1)
  note c1 = coalesce_blocks_block [OF r1(1) xs b1, folded b S]
  note c2 = coalesce_blocks_block [OF r2(1) xs b2, folded b S]
  have d: "\<not> prev_free xs \<and> \<not> next_free ys \<longrightarrow>
            b = p1 - 4 \<and> S = s1 + s2 \<and>
            coalesce_blocks xs (s1 + s2) ys = xs @ (s1 + s2, False) # ys \<and>
            coalesce_list xs (s1 + s2) ys (p1 - 4) (mm_list st) = (p1 - 4) # mm_list st"
    by (simp add: b S coalesce_blocks_def coalesce_list_def)
  show ?thesis
    using r1(1,2,4) r2(1,2,4) c1 c2 d unfolding b [symmetric] by (intro conjI)
qed

theorem coalesce_adjacent_pair_witness:
  "heap_ok demo_heap3 ([(8, True)] @ (16, True) # (16, True) # [(16, True), (16, False)]) \<and>
   [(8 :: int, True)] \<noteq> [] \<and> 4112 - 4 = heap_blocks demo_heap3 + total [(8, True)] \<and>
   (4128 :: int) = 4112 + 16 \<and>
   \<not> prev_free [(8 :: int, True)] \<and> \<not> next_free [(16 :: int, True), (16, False)] \<and>
   heap_ok (mm_free 4128 (mm_free 4112 demo_heap3))
     [(8, True), (16 + 16, False), (16, True), (16, False)] \<and>
   heap_ok (mm_free 4112 (mm_free 4128 demo_heap3))
     [(8, True), (16 + 16, False), (16, True), (16, False)] \<and>
   mm_block_size (mm_free 4128 (mm_free 4112 demo_heap3)) (4112 - 4) = 16 + 16 \<and>
   mm_block_size (mm_free 4112 (mm_free 4128 demo_heap3)) (4112 - 4) = 16 + 16"
proof -
  have h1: "heap_ok demo_heap3 ([(8, True)] @ (16, True) # (16, True) # [(16, True), (16, False)])"
    using demo_heap3_facts(3) by simp
  have h2: "[(8 :: int, True)] \<noteq> []" by simp
  have h3: "\<not> prev_free [(8 :: int, True)]" by (simp add: prev_free_def)
  have h4: "\<not> next_free [(16 :: int, True), (16, False)]" by (simp add: next_free_def)
  have h5: "4112 - 4 = heap_blocks demo_heap3 + total [(8, True)]"
    by (simp add: demo_heap3_facts(5))
  have h6: "(4128 :: int) = 4112 + 16" by simp
  note c = coalesce_adjacent_pair [OF h1 h2 h5 h6 refl refl]
  have e: "coalesce_blocks [(8, True)] (16 + 16) [(16, True), (16, False)] =
             [(8, True), (16 + 16, False), (16, True), (16, False)]"
    by (simp add: coalesce_blocks_def prev_free_def next_free_def)
  have e1: "(if prev_free [(8 :: int, True)] then 4112 - 4 - fst (last [(8 :: int, True)]) else 4112 - 4)
              = (4112 - 4 :: int)"
    by (simp add: prev_free_def)
  have e2: "(if prev_free [(8 :: int, True)] then fst (last [(8 :: int, True)]) else 0) + (16 + 16) +
            (if next_free [(16 :: int, True), (16, False)] then fst (hd [(16 :: int, True), (16, False)]) else 0)
              = (16 + 16 :: int)"
    by (simp add: prev_free_def next_free_def)
  note c1 = c [THEN conjunct1, unfolded e]
  note c2 = c [THEN conjunct2, THEN conjunct1, unfolded e]
  note c3 = c [THEN conjunct2, THEN conjunct2, THEN conjunct1, unfolded e1 e2]
  note c4 = c [THEN conjunct2, THEN conjunct2, THEN conjunct2, THEN conjunct1, unfolded e1 e2]
  show ?thesis
    using h1 h2 h3 h4 h5 h6 c1 c2 c3 c4 by (intro conjI)
qed

text \<open>
  The claim as stated, for any two adjacent allocated blocks, fails when an outer
  neighbour is free: after \<open>mm_init\<close> and two \<open>mm_malloc 8\<close> the two blocks of 16 bytes are
  followed by a free block of 32 bytes, and freeing both, in either order, gives one free
  block of 64 bytes. Likewise after \<open>mm_init\<close> and two \<open>mm_malloc 40\<close>, the second of which
  extends the heap: the two blocks of 48 bytes are followed by a free block of 480 bytes,
  and freeing both, in either order, gives one free block of 576 bytes, the only block of
  the free list.
\<close>

theorem coalesce_adjacent_pair_counterexample:
  "mm_malloc 8 demo_heap = Some (4112, demo_heap1) \<and>
   mm_malloc 8 demo_heap1 = Some (4128, demo_heap2) \<and>
   heap_ok demo_heap2 [(8, True), (16, True), (16, True), (32, False)] \<and>
   heap_ok (mm_free 4128 (mm_free 4112 demo_heap2)) [(8, True), (64, False)] \<and>
   heap_ok (mm_free 4112 (mm_free 4128 demo_heap2)) [(8, True), (64, False)] \<and>
   mm_block_size (mm_free 4128 (mm_free 4112 demo_heap2)) 4108 = 64 \<and>
   mm_block_size (mm_free 4112 (mm_free 4128 demo_heap2)) 4108 = 64 \<and>
   (64 :: int) \<noteq> 16 + 16 \<and>
   mm_malloc 40 demo_heap = Some (4112, pair_heap1) \<and>
   mm_malloc 40 pair_heap1 = Some (4160, pair_heap2) \<and>
   heap_ok pair_heap2 [(8, True), (48, True), (48, True), (480, False)] \<and>
   heap_ok (mm_free 4160 (mm_free 4112 pair_heap2)) [(8, True), (576, False)] \<and>
   heap_ok (mm_free 4112 (mm_free 4160 pair_heap2)) [(8, True), (576, False)] \<and>
   mm_block_size (mm_free 4160 (mm_free 4112 pair_heap2)) 4108 = 576 \<and>
   mm_block_size (mm_free 4112 (mm_free 4160 pair_heap2)) 4108 = 576 \<and>
   mm_list (mm_free 4160 (mm_free 4112 pair_heap2)) = [4108] \<and>
   mm_list (mm_free 4112 (mm_free 4160 pair_heap2)) = [4108] \<and>
   (576 :: int) \<noteq> 48 + 48"
proof -
  have b1: "4108 = heap_blocks (mm_free 4128 (mm_free 4112 demo_heap2)) + total [(8, True)]"
    by (simp add: demo_free_low_high(2))
  have b2: "4108 = heap_blocks (mm_free 4112 (mm_free 4128 demo_heap2)) + total [(8, True)]"
    by (simp add: demo_free_high_low(2))
  have e: "[(8, True), (64, False)] = [(8 :: int, True)] @ (64, False) # []" by simp
  have "mm_block_size (mm_free 4128 (mm_free 4112 demo_heap2)) 4108 = 64"
    by (rule block_facts(1) [OF demo_free_low_high(1) e b1])
  moreover have "mm_block_size (mm_free 4112 (mm_free 4128 demo_heap2)) 4108 = 64"
    by (rule block_facts(1) [OF demo_free_high_low(1) e b2])
  moreover have "(64 :: int) \<noteq> 16 + 16" "(576 :: int) \<noteq> 48 + 48" by simp_all
  ultimately show ?thesis
    using demo_malloc1 demo_malloc2 demo_heap2_facts(3) demo_free_low_high(1) demo_free_high_low(1)
      pair_heap1_facts(1) pair_heap2_facts(1,2) pair_heap_free
    by (intro conjI)
qed

text \<open>
  The claim as stated, for any sequence of calls, fails when a request is cut by the
  conversion to \<open>int\<close>. After four \<open>mm_malloc 8\<close>, \<open>mm_free 4128\<close>, \<open>mm_realloc 4112 16\<close>
  and \<open>mm_free 4144\<close> the heap is well formed: an allocated block of 32 bytes at 4108, a
  free block of 16 bytes at 4140, and at 4156 the allocated block of the live pointer
  4160. \<open>mm_realloc 4112 huge_request\<close> calls \<open>mm_malloc huge_request\<close>, which allocates the
  16 bytes at 4140, and copies the 24 bytes of the old payload to the new payload of 8
  bytes. The copy writes the old header of the absorbed block, a free tag, over the header
  at 4156. At the end of the call the block at 4156, the third after the prologue, has
  its allocation bit false and is not in the free list.
\<close>

theorem free_list_invariant_counterexample:
  "reach any_request demo_heap {} \<and>
   mm_malloc 8 demo_heap = Some (4112, demo_heap1) \<and>
   mm_malloc 8 demo_heap1 = Some (4128, demo_heap2) \<and>
   mm_malloc 8 demo_heap2 = Some (4144, demo_heap3) \<and>
   mm_malloc 8 demo_heap3 = Some (4160, demo_heap4) \<and>
   overrun_heap1 = mm_free 4128 demo_heap4 \<and>
   mm_realloc 4112 16 overrun_heap1 = Some (4112, overrun_heap2) \<and>
   overrun_heap3 = mm_free 4144 overrun_heap2 \<and>
   reach any_request overrun_heap3 {4112, 4160} \<and>
   heap_ok overrun_heap3 [(8, True), (32, True), (16, False), (16, True)] \<and>
   mm_block_allocated overrun_heap3 4156 \<and>
   mm_realloc 4112 huge_request overrun_heap3 = Some (4144, overrun_heap4) \<and>
   reach any_request overrun_heap4 {4144, 4160} \<and>
   mm_block_next overrun_heap4 (heap_blocks overrun_heap4) = 4108 \<and>
   mm_block_next overrun_heap4 4108 = 4140 \<and> mm_block_next overrun_heap4 4140 = 4156 \<and>
   \<not> mm_block_allocated overrun_heap4 4156 \<and> 4156 \<notin> set (mm_list overrun_heap4)"
proof -
  have a: "any_request n" for n by (simp add: any_request_def)
  have h: "huge_request \<noteq> 0" by (simp add: huge_request_def)
  from reach.malloc [where ok = any_request, OF demo_heap_reach a demo_malloc1]
  have r1: "reach any_request demo_heap1 {4112}" by simp
  from reach.malloc [where ok = any_request, OF r1 a demo_malloc2]
  have r2: "reach any_request demo_heap2 {4112, 4128}" by (simp add: insert_commute)
  from reach.malloc [where ok = any_request, OF r2 a demo_malloc3]
  have r3: "reach any_request demo_heap3 {4112, 4128, 4144}" by (simp add: insert_commute)
  from reach.malloc [where ok = any_request, OF r3 a demo_heap4_facts(1)]
  have r4: "reach any_request demo_heap4 {4112, 4128, 4144, 4160}" by (simp add: insert_commute)
  have "{4112, 4128, 4144, 4160} - {4128} = {4112, 4144, 4160 :: int}" by auto
  with reach.free [OF r4, of 4128]
  have r5: "reach any_request overrun_heap1 {4112, 4144, 4160}" by (simp add: overrun_heap1_def)
  have "insert 4112 ({4112, 4144, 4160} - {4112}) = {4112, 4144, 4160 :: int}" by auto
  with reach.realloc [where ok = any_request, OF r5 _ a overrun_heap2_facts(1)]
  have r6: "reach any_request overrun_heap2 {4112, 4144, 4160}" by simp
  have "{4112, 4144, 4160} - {4144} = {4112, 4160 :: int}" by auto
  with reach.free [OF r6, of 4144]
  have r7: "reach any_request overrun_heap3 {4112, 4160}" by (simp add: overrun_heap3_def)
  have "insert 4144 ({4112, 4160} - {4112}) = {4144, 4160 :: int}" by auto
  with reach.realloc [where ok = any_request, OF r7 _ a overrun_heap4_facts(1)] h
  have r8: "reach any_request overrun_heap4 {4144, 4160}" by simp
  have ok3: "heap_ok overrun_heap3 ([(8, True), (32, True), (16, False)] @ (16, True) # [])"
    using overrun_heap3_facts(1) by simp
  have b3: "4156 = heap_blocks overrun_heap3 + total [(8, True), (32, True), (16, False)]"
    by (simp add: overrun_heap3_facts(3))
  have "mm_block_allocated overrun_heap3 4156"
    using block_facts(2) [OF ok3 refl b3] by simp
  moreover have "mm_block_next overrun_heap4 (heap_blocks overrun_heap4) = 4108"
    "mm_block_next overrun_heap4 4108 = 4140" "mm_block_next overrun_heap4 4140 = 4156"
    by (simp_all add: mm_block_next_def mm_block_size_def overrun_heap4_facts size_pack)
  moreover have "\<not> mm_block_allocated overrun_heap4 4156"
    by (simp add: mm_block_allocated_def overrun_heap4_facts alloc_pack)
  moreover have "4156 \<notin> set (mm_list overrun_heap4)"
    by (simp add: overrun_heap4_facts)
  ultimately show ?thesis
    using demo_heap_reach [of any_request] demo_malloc1 demo_malloc2 demo_malloc3
      demo_heap4_facts(1) overrun_heap1_def overrun_heap2_facts(1) overrun_heap3_def r7
      overrun_heap3_facts(1) overrun_heap4_facts(1) r8
    by (intro conjI)
qed

end
